theory Spec2Isabelle
  imports Main "HOL-Library.Word"
begin

section \<open>Process attributes (include/exec\_command.h, exec\_command.c lines 35-44)\<close>

text \<open>
  \<^verbatim>\<open>struct exec_command_attrs\<close>: every field is a 32-bit word (\<^verbatim>\<open>int\<close> and
  \<^verbatim>\<open>pid_t\<close> are signed, \<^verbatim>\<open>uid_t\<close> and \<^verbatim>\<open>gid_t\<close> unsigned; the code only
  compares the fields with 0 and -1), so that the assignment \<^verbatim>\<open>attrs->uid = -1\<close>
  stores the all-ones word. The field \<^verbatim>\<open>mask\<close> is named \<open>mask_attr\<close> here,
  \<open>mask\<close> being a constant of the word library.
\<close>

record exec_command_attrs =
  setpgid :: "32 word"
  pgid :: "32 word"
  setctty :: "32 word"
  ctty :: "32 word"
  setsid :: "32 word"
  uid :: "32 word"
  gid :: "32 word"
  mask_attr :: "32 word"

definition exec_command_attrs_init :: "exec_command_attrs \<Rightarrow> exec_command_attrs" where
  "exec_command_attrs_init attrs =
     attrs\<lparr>setpgid := 0, pgid := 0, setsid := 0, setctty := 0, ctty := 0,
           mask_attr := 0, uid := - 1, gid := - 1\<rparr>"


section \<open>The operating system interface\<close>

text \<open>
  The system calls are not code of the repository; they are modelled after POSIX, as far
  as \<^verbatim>\<open>exec_command.c\<close> observes them. A process has a descriptor table (each open
  descriptor names an open file and carries its close-on-exec flag), the soft limit
  \<^verbatim>\<open>RLIMIT_NOFILE\<close>, the blocked signal mask of the calling thread, the set of signals
  with a handler installed, \<^verbatim>\<open>errno\<close>, and logs of what it wrote to descriptors
  (open file, value, bytes written), of its calls of \<^verbatim>\<open>waitpid\<close> (process id and
  options) and of what it printed. \<open>pipes_made\<close> numbers the pipes.

  Descriptors are C \<^verbatim>\<open>int\<close>s, modelled as \<open>int\<close>: every descriptor the code
  computes stays within one of the descriptor limit, as \<^verbatim>\<open>dup2\<close> fails beyond it, so
  no arithmetic on them overflows for limits below \<open>2^31 - 1\<close>, which is assumed.
  A call on descriptors fails only for the reasons POSIX gives for the state of the
  descriptor table (a descriptor that is not open, a descriptor beyond the limit, no
  free descriptor).
\<close>

datatype ofile = File nat | PipeRd nat | PipeWr nat

datatype message = Restoring_signal_mask int | Exec_command_execve int

type_synonym sigset = "nat set"

record proc =
  fds :: "int \<rightharpoonup> ofile \<times> bool"
  nofile :: nat
  blocked :: sigset
  caught :: "nat set"
  errno :: int
  written :: "(ofile \<times> int \<times> int) list"
  pipes_made :: nat
  waitpid_calls :: "(int \<times> int) list"
  printed :: "message list"

text \<open>
  What the kernel answers where the answer does not depend on the descriptor table: an
  error number (0 for success) for each such call, the return value of \<^verbatim>\<open>fork\<close>, what
  \<^verbatim>\<open>read\<close> returns and delivers, and the return value of the n-th \<^verbatim>\<open>write\<close> to a valid
  descriptor (negative: the call failed). \<open>NSIG\<close> is the constant of \<^verbatim>\<open>signal.h\<close>.
\<close>

record kernel =
  NSIG :: nat
  calloc_null :: bool
  setsid_err :: int
  setpgid_err :: int
  ioctl_err :: int
  getrlimit_err :: int
  setgid_err :: int
  setreuid_err :: int
  chdir_err :: int
  execve_err :: int
  write_ret :: "nat \<Rightarrow> int"
  fork_ret :: int
  fork_err :: int
  read_ret :: int
  read_val :: int
  read_err :: int
  waitpid_err :: int

text \<open>Error numbers and signal numbers of Linux (\<^verbatim>\<open>errno.h\<close>, \<^verbatim>\<open>signal.h\<close>).\<close>

definition EBADF :: int where "EBADF = 9"
definition ENOMEM :: int where "ENOMEM = 12"
definition EINVAL :: int where "EINVAL = 22"
definition EMFILE :: int where "EMFILE = 24"
definition SIGKILL :: nat where "SIGKILL = 9"
definition SIGSTOP :: nat where "SIGSTOP = 19"

text \<open>\<^verbatim>\<open>close(fd)\<close>: fails with \<open>EBADF\<close> when \<open>fd\<close> is not open.\<close>

definition sys_close :: "int \<Rightarrow> 'a proc_scheme \<Rightarrow> int \<times> 'a proc_scheme" where
  "sys_close fd s =
     (case fds s fd of
        None \<Rightarrow> (- 1, s\<lparr>errno := EBADF\<rparr>)
      | Some d \<Rightarrow> (0, s\<lparr>fds := (fds s)(fd := None)\<rparr>))"

text \<open>
  \<^verbatim>\<open>dup2(oldfd, newfd)\<close>: fails with \<open>EBADF\<close> when \<open>oldfd\<close> is not open or \<open>newfd\<close>
  is outside the range the limit allows; does nothing when both are equal; otherwise
  \<open>newfd\<close> (silently closed when open) names the open file of \<open>oldfd\<close>, with the
  close-on-exec flag off.
\<close>

definition sys_dup2 :: "int \<Rightarrow> int \<Rightarrow> 'a proc_scheme \<Rightarrow> int \<times> 'a proc_scheme" where
  "sys_dup2 oldfd newfd s =
     (case fds s oldfd of
        None \<Rightarrow> (- 1, s\<lparr>errno := EBADF\<rparr>)
      | Some d \<Rightarrow>
          if newfd < 0 \<or> int (nofile s) \<le> newfd then (- 1, s\<lparr>errno := EBADF\<rparr>)
          else if newfd = oldfd then (newfd, s)
          else (newfd, s\<lparr>fds := (fds s)(newfd \<mapsto> (fst d, False))\<rparr>))"

text \<open>\<^verbatim>\<open>fcntl(fd, F_SETFD, arg)\<close>; \<open>cloexec\<close> says whether \<open>arg\<close> has \<^verbatim>\<open>FD_CLOEXEC\<close>.\<close>

definition sys_fcntl_setfd :: "int \<Rightarrow> bool \<Rightarrow> 'a proc_scheme \<Rightarrow> int \<times> 'a proc_scheme" where
  "sys_fcntl_setfd fd cloexec s =
     (case fds s fd of
        None \<Rightarrow> (- 1, s\<lparr>errno := EBADF\<rparr>)
      | Some d \<Rightarrow> (0, s\<lparr>fds := (fds s)(fd \<mapsto> (fst d, cloexec))\<rparr>))"

text \<open>
  \<^verbatim>\<open>pthread_sigmask(SIG_SETMASK, &new, &old)\<close>: returns 0 (it has no failure with a valid
  \<open>how\<close>, and reports errors as a positive return value, never through a negative one),
  the previous mask, and the state with the new mask installed.
\<close>

definition sys_pthread_sigmask :: "sigset \<Rightarrow> 'a proc_scheme \<Rightarrow> int \<times> sigset \<times> 'a proc_scheme" where
  "sys_pthread_sigmask new s = (0, blocked s, s\<lparr>blocked := new\<rparr>)"

text \<open>
  \<^verbatim>\<open>sigaction(signo, &action, 0)\<close> with the default action: invalid for signal 0 and for
  the two signals whose action cannot be changed.
\<close>

definition sys_sigaction_dfl :: "nat \<Rightarrow> 'a proc_scheme \<Rightarrow> int \<times> 'a proc_scheme" where
  "sys_sigaction_dfl signo s =
     (if signo = 0 \<or> signo = SIGKILL \<or> signo = SIGSTOP then (- 1, s\<lparr>errno := EINVAL\<rparr>)
      else (0, s\<lparr>caught := caught s - {signo}\<rparr>))"

text \<open>A call whose outcome the kernel record gives: -1 and \<^verbatim>\<open>errno\<close> set, or 0.\<close>

definition sys_call :: "int \<Rightarrow> 'a proc_scheme \<Rightarrow> int \<times> 'a proc_scheme" where
  "sys_call e s = (if e = 0 then (0, s) else (- 1, s\<lparr>errno := e\<rparr>))"

definition sys_getrlimit_nofile :: "kernel \<Rightarrow> 'a proc_scheme \<Rightarrow> int \<times> nat \<times> 'a proc_scheme" where
  "sys_getrlimit_nofile k s =
     (if getrlimit_err k = 0 then (0, nofile s, s)
      else (- 1, 0, s\<lparr>errno := getrlimit_err k\<rparr>))"

text \<open>
  The n-th \<^verbatim>\<open>write(fd, &v, 4)\<close> of a retry loop: \<open>EBADF\<close> on a descriptor that is not
  open, otherwise what the kernel record answers; a successful write of \<open>r\<close> bytes is
  logged with the open file and the value.
\<close>

definition sys_write :: "kernel \<Rightarrow> int \<Rightarrow> int \<Rightarrow> nat \<Rightarrow> 'a proc_scheme \<Rightarrow> int \<times> 'a proc_scheme" where
  "sys_write k fd v n s =
     (case fds s fd of
        None \<Rightarrow> (- 1, s\<lparr>errno := EBADF\<rparr>)
      | Some d \<Rightarrow>
          if write_ret k n < 0 then (- 1, s\<lparr>errno := - write_ret k n\<rparr>)
          else (write_ret k n, s\<lparr>written := written s @ [(fst d, v, write_ret k n)]\<rparr>))"

text \<open>
  \<^verbatim>\<open>pipe\<close> takes the two lowest free descriptors below the limit, and fails with
  \<open>EMFILE\<close> when there are not two.
\<close>

definition lowest_free :: "'a proc_scheme \<Rightarrow> int option" where
  "lowest_free s = find (\<lambda>fd. fds s fd = None) (map int [0..<nofile s])"

definition sys_pipe :: "'a proc_scheme \<Rightarrow> int \<times> (int \<times> int) \<times> 'a proc_scheme" where
  "sys_pipe s =
     (case lowest_free s of
        None \<Rightarrow> (- 1, (0, 0), s\<lparr>errno := EMFILE\<rparr>)
      | Some r \<Rightarrow>
          (case lowest_free (s\<lparr>fds := (fds s)(r \<mapsto> (PipeRd (pipes_made s), False))\<rparr>) of
             None \<Rightarrow> (- 1, (0, 0), s\<lparr>errno := EMFILE\<rparr>)
           | Some w \<Rightarrow>
               (0, (r, w),
                s\<lparr>fds := (fds s)(r \<mapsto> (PipeRd (pipes_made s), False),
                                    w \<mapsto> (PipeWr (pipes_made s), False)),
                  pipes_made := Suc (pipes_made s)\<rparr>)))"

text \<open>
  \<^verbatim>\<open>fork\<close> returns what the kernel record says: -1 (and \<^verbatim>\<open>errno\<close> is set), 0 in the
  child, the child's process id in the parent. \<^verbatim>\<open>read(fd, &err, 4)\<close> returns the
  number of bytes read and the value read when that number is 4. \<^verbatim>\<open>waitpid\<close> is
  logged with its options.
\<close>

definition sys_fork :: "kernel \<Rightarrow> 'a proc_scheme \<Rightarrow> int \<times> 'a proc_scheme" where
  "sys_fork k s =
     (if fork_ret k = - 1 then (- 1, s\<lparr>errno := fork_err k\<rparr>) else (fork_ret k, s))"

definition sys_read :: "kernel \<Rightarrow> int \<Rightarrow> 'a proc_scheme \<Rightarrow> int \<times> int \<times> 'a proc_scheme" where
  "sys_read k fd s =
     (case fds s fd of
        None \<Rightarrow> (- 1, 0, s\<lparr>errno := EBADF\<rparr>)
      | Some d \<Rightarrow>
          if read_ret k < 0 then (- 1, 0, s\<lparr>errno := read_err k\<rparr>)
          else (read_ret k, read_val k, s))"

definition sys_waitpid :: "kernel \<Rightarrow> int \<Rightarrow> int \<Rightarrow> 'a proc_scheme \<Rightarrow> int \<times> 'a proc_scheme" where
  "sys_waitpid k pid options s =
     (if waitpid_err k = 0 then (pid, s\<lparr>waitpid_calls := waitpid_calls s @ [(pid, options)]\<rparr>)
      else (- 1, s\<lparr>waitpid_calls := waitpid_calls s @ [(pid, options)],
                   errno := waitpid_err k\<rparr>))"

section \<open>The child between fork and exec (exec\_command.c lines 46-249)\<close>

text \<open>
  The child's state is the process state and the locals of \<^verbatim>\<open>child_handler\<close> that
  outlive a statement. \<open>fd_table\<close> is the \<^verbatim>\<open>calloc\<close>ed array (empty when the pointer is
  \<^verbatim>\<open>NULL\<close>) and \<open>fd_table_live\<close> says that it is allocated and not yet freed. The
  request list \<open>file_handles\<close> is an \<open>int list\<close>, and \<open>file_handle_count\<close> is its
  length. A step returns \<open>Inr\<close> the next state, or \<open>Inl\<close> the state in which it
  jumps to \<^verbatim>\<open>fail\<close>.
\<close>

record child = proc +
  syncfd :: int
  fd_index :: int
  fd_table :: "int list"
  fd_table_live :: bool

datatype child_outcome =
  Execd string "string list" "string list" child
| Exited int child

definition then_do :: "'s + 's \<Rightarrow> ('s \<Rightarrow> 's + 's) \<Rightarrow> 's + 's" where
  "then_do r f = (case r of Inl s \<Rightarrow> Inl s | Inr s \<Rightarrow> f s)"

text \<open>A \<^verbatim>\<open>for\<close> loop over the given values of \<open>i\<close>, left at the first \<^verbatim>\<open>goto fail\<close>.\<close>

fun for_each :: "nat list \<Rightarrow> (nat \<Rightarrow> 's \<Rightarrow> 's + 's) \<Rightarrow> 's \<Rightarrow> 's + 's" where
  "for_each [] body s = Inr s"
| "for_each (i # js) body s =
     (case body i s of Inl e \<Rightarrow> Inl e | Inr s' \<Rightarrow> for_each js body s')"

text \<open>
  Lines 51-83: the locals, the allocation of \<open>fd_table\<close>, closing the parent's end of
  the pipe, resetting the signal handlers and emptying the blocked mask.
\<close>

definition child_locals :: "int \<times> int \<Rightarrow> proc \<Rightarrow> child" where
  "child_locals sync_pipes p =
     \<lparr>fds = fds p, nofile = nofile p, blocked = blocked p, caught = caught p,
      errno = errno p, written = written p, pipes_made = pipes_made p,
      waitpid_calls = waitpid_calls p, printed = printed p,
      syncfd = snd sync_pipes, fd_index = 0, fd_table = [], fd_table_live = False\<rparr>"

definition child_alloc :: "kernel \<Rightarrow> int list \<Rightarrow> child \<Rightarrow> child + child" where
  "child_alloc k file_handles s =
     (if 0 < length file_handles then
        (if calloc_null k then Inl (s\<lparr>errno := ENOMEM\<rparr>)
         else Inr (s\<lparr>fd_table := replicate (length file_handles) 0, fd_table_live := True\<rparr>))
      else Inr s)"

definition child_signals :: "kernel \<Rightarrow> int \<times> int \<Rightarrow> child \<Rightarrow> child + child" where
  "child_signals k sync_pipes s =
     (case sys_close (fst sync_pipes) s of (r, s1) \<Rightarrow>
        if r < 0 then Inl s1
        else
          (case sys_pthread_sigmask {}
                  (fold (\<lambda>i t. snd (sys_sigaction_dfl i t)) [0..<NSIG k] s1) of
             (r, old, s2) \<Rightarrow> if r < 0 then Inl s2 else Inr s2))"

definition child_setup :: "kernel \<Rightarrow> int \<times> int \<Rightarrow> int list \<Rightarrow> proc \<Rightarrow> child + child" where
  "child_setup k sync_pipes file_handles p =
     then_do (child_alloc k file_handles (child_locals sync_pipes p))
       (child_signals k sync_pipes)"

text \<open>Lines 134-139: the highest source descriptor, and the copy of the request list.\<close>

definition child_highest :: "int list \<Rightarrow> child \<Rightarrow> child" where
  "child_highest file_handles s =
     fold (\<lambda>i t.
             (if fd_index t < file_handles ! i then t\<lparr>fd_index := file_handles ! i\<rparr> else t)
               \<lparr>fd_table := (fd_table t)[i := file_handles ! i]\<rparr>)
       [0..<length file_handles] s"

text \<open>Lines 142-158: the pipe moves to the descriptor after the highest one.\<close>

definition child_sync :: "child \<Rightarrow> child + child" where
  "child_sync s0 =
     (let s = s0\<lparr>fd_index := fd_index s0 + 1\<rparr> in
      then_do
        (if syncfd s \<noteq> fd_index s then
           (case sys_dup2 (syncfd s) (fd_index s) s of (r, s1) \<Rightarrow>
              if r < 0 then Inl s1
              else
                (case sys_close (syncfd s1) s1 of (r, s2) \<Rightarrow>
                   if r < 0 then Inl s2 else Inr (s2\<lparr>syncfd := fd_index s2\<rparr>)))
         else Inr s)
        (\<lambda>s3.
           (case sys_fcntl_setfd (syncfd s3) True (s3\<lparr>fd_index := fd_index s3 + 1\<rparr>) of
              (r, s4) \<Rightarrow> if r = - 1 then Inl s4 else Inr s4)))"

text \<open>Lines 161-173: every source that is not in place gets a copy above the pipe.\<close>

definition move_up :: "nat \<Rightarrow> child \<Rightarrow> child + child" where
  "move_up i s =
     (if fd_table s ! i = int i then Inr s
      else
        (case sys_dup2 (fd_table s ! i) (fd_index s) s of (r, s1) \<Rightarrow>
           if r < 0 then Inl s1
           else
             (case sys_fcntl_setfd (fd_index s1) True s1 of (r, s2) \<Rightarrow>
                if r = - 1 then Inl s2
                else Inr (s2\<lparr>fd_table := (fd_table s2)[i := fd_index s2],
                              fd_index := fd_index s2 + 1\<rparr>))))"

text \<open>Lines 176-187: the copies come down to their positions, close-on-exec cleared.\<close>

definition place :: "nat \<Rightarrow> child \<Rightarrow> child + child" where
  "place i s =
     then_do
       (if fd_table s ! i \<noteq> int i then
          (case sys_dup2 (fd_table s ! i) (int i) s of (r, s1) \<Rightarrow>
             if r < 0 then Inl s1 else Inr s1)
        else Inr s)
       (\<lambda>s1. case sys_fcntl_setfd (int i) False s1 of (r, s2) \<Rightarrow>
                if r = - 1 then Inl s2 else Inr s2)"

definition child_shuffle :: "int list \<Rightarrow> child \<Rightarrow> child + child" where
  "child_shuffle file_handles s =
     then_do (child_sync (child_highest file_handles s))
       (\<lambda>s1. then_do (for_each [0..<length file_handles] move_up s1)
                (for_each [0..<length file_handles] place))"

text \<open>Lines 189-204: session, process group, controlling terminal.\<close>

definition child_session :: "kernel \<Rightarrow> exec_command_attrs \<Rightarrow> child \<Rightarrow> child + child" where
  "child_session k attrs s =
     then_do
       (if setsid attrs \<noteq> 0 then
          (case sys_call (setsid_err k) s of (r, s1) \<Rightarrow> if r = - 1 then Inl s1 else Inr s1)
        else Inr s)
       (\<lambda>s1. then_do
          (if setpgid attrs \<noteq> 0 then
             (case sys_call (setpgid_err k) s1 of (r, s2) \<Rightarrow> if r < 0 then Inl s2 else Inr s2)
           else Inr s1)
          (\<lambda>s2. if setctty attrs \<noteq> 0 then
                   (case sys_call (ioctl_err k) s2 of (r, s3) \<Rightarrow>
                      if r \<noteq> 0 then Inl s3 else Inr s3)
                 else Inr s2))"

text \<open>
  Lines 208-215: every descriptor from the length of the request list up to the limit
  \<open>rlim_cur\<close>, the limit included, is marked close-on-exec; a descriptor that is not
  open is skipped.
\<close>

definition mark_cloexec :: "nat \<Rightarrow> child \<Rightarrow> child + child" where
  "mark_cloexec i s =
     (case sys_fcntl_setfd (int i) True s of (r, s1) \<Rightarrow>
        if r = - 1 \<and> errno s1 \<noteq> EBADF then Inl s1 else Inr s1)"

definition child_cloexec :: "kernel \<Rightarrow> nat \<Rightarrow> child \<Rightarrow> child + child" where
  "child_cloexec k file_handle_count s =
     (case sys_getrlimit_nofile k s of (r, rlim_cur, s1) \<Rightarrow>
        if r < 0 then Inl s1
        else for_each [file_handle_count..<Suc rlim_cur] mark_cloexec s1)"

text \<open>Lines 133-215 together: the descriptors of the child.\<close>

definition child_descriptors ::
  "kernel \<Rightarrow> exec_command_attrs \<Rightarrow> int list \<Rightarrow> child \<Rightarrow> child + child" where
  "child_descriptors k attrs file_handles s =
     then_do (child_shuffle file_handles s)
       (\<lambda>s1. then_do (child_session k attrs s1) (child_cloexec k (length file_handles)))"

text \<open>Lines 217-235: group id, user id, working directory.\<close>

definition child_identity ::
  "kernel \<Rightarrow> exec_command_attrs \<Rightarrow> string option \<Rightarrow> child \<Rightarrow> child + child" where
  "child_identity k attrs cwd s =
     then_do
       (if gid attrs \<noteq> - 1 then
          (case sys_call (setgid_err k) s of (r, s1) \<Rightarrow> if r \<noteq> 0 then Inl s1 else Inr s1)
        else Inr s)
       (\<lambda>s1. then_do
          (if uid attrs \<noteq> - 1 then
             (case sys_call (setreuid_err k) s1 of (r, s2) \<Rightarrow>
                if r \<noteq> 0 then Inl s2 else Inr s2)
           else Inr s1)
          (\<lambda>s2. if cwd \<noteq> None then
                   (case sys_call (chdir_err k) s2 of (r, s3) \<Rightarrow>
                      if r \<noteq> 0 then Inl s3 else Inr s3)
                 else Inr s2))"

text \<open>
  Lines 238-249, the label \<^verbatim>\<open>fail\<close>. The loop \<^verbatim>\<open>while (write(...) < 0);\<close> may run for
  ever: \<open>None\<close> is the value of a loop that does not end.
\<close>

partial_function (option) write_retry :: "kernel \<Rightarrow> int \<Rightarrow> nat \<Rightarrow> child \<Rightarrow> child option" where
  "write_retry k err n s =
     (case sys_write k (syncfd s) err n s of
        (r, s1) \<Rightarrow> if r < 0 then write_retry k err (Suc n) s1 else Some s1)"

definition child_fail :: "kernel \<Rightarrow> child \<Rightarrow> child_outcome option" where
  "child_fail k s0 =
     (let s = (if fd_table_live s0 then s0\<lparr>fd_table_live := False\<rparr> else s0);
          err = errno s
      in if err \<noteq> 0 then
           (case write_retry k err 0 s of
              None \<Rightarrow> None
            | Some s1 \<Rightarrow> Some (Exited 127 s1))
         else Some (Exited 127 s))"

text \<open>
  \<^verbatim>\<open>child_handler\<close>. The parameter \<open>old_mask\<close> is not used by the code. The function
  never returns: the child ends in the new program, exits, or writes for ever.
\<close>

definition child_handler ::
  "kernel \<Rightarrow> int \<times> int \<Rightarrow> string \<Rightarrow> string list \<Rightarrow> string list \<Rightarrow> int list \<Rightarrow>
   string option \<Rightarrow> sigset \<Rightarrow> exec_command_attrs \<Rightarrow> proc \<Rightarrow> child_outcome option" where
  "child_handler k sync_pipes executable args environment file_handles cwd old_mask attrs p =
     (case then_do (child_setup k sync_pipes file_handles p)
             (\<lambda>s. then_do (child_descriptors k attrs file_handles s)
                (child_identity k attrs cwd)) of
        Inl s \<Rightarrow> child_fail k s
      | Inr s \<Rightarrow>
          (case sys_call (execve_err k) s of (r, s1) \<Rightarrow>
             if r = 0 then Some (Execd executable args environment s1)
             else child_fail k s1))"

section \<open>The parent (exec\_command.c lines 251-325)\<close>

text \<open>
  A call of \<^verbatim>\<open>exec_command\<close> returns to its caller, with the return value, the content
  of \<^verbatim>\<open>*result\<close> and the state of the process; in the duplicated process it never
  returns, and the outcome is that of \<^verbatim>\<open>child_handler\<close>.
\<close>

datatype exec_outcome =
  Returned int int proc
| In_child "child_outcome option"

text \<open>
  The label \<^verbatim>\<open>fail\<close> of \<^verbatim>\<open>exec_command\<close> (lines 316-324), reached with the values of
  the locals \<open>err\<close> and \<open>old_mask\<close> and the content of \<^verbatim>\<open>*result\<close>.
\<close>

definition exec_command_fail :: "int \<Rightarrow> sigset \<Rightarrow> int \<Rightarrow> proc \<Rightarrow> exec_outcome" where
  "exec_command_fail err old_mask result s =
     (case sys_pthread_sigmask old_mask s of (r, old, s1) \<Rightarrow>
        (let s2 = (if r < 0 then s1\<lparr>printed := printed s1 @ [Restoring_signal_mask (errno s1)]\<rparr>
                   else s1)
         in if err \<noteq> 0 then
              Returned (- 1) result (s2\<lparr>printed := printed s2 @ [Exec_command_execve err]\<rparr>)
            else Returned 0 result s2))"

text \<open>
  \<^verbatim>\<open>exec_command\<close>. The local \<open>old_mask\<close> is not initialised by the code:
  \<open>old_mask0\<close> is the indeterminate content it has until \<^verbatim>\<open>pthread_sigmask\<close> stores
  the previous mask in it. \<open>result\<close> is the content of \<^verbatim>\<open>*result\<close> at the call.
  \<^verbatim>\<open>sigfillset\<close> gives the set of all signals.
\<close>

definition exec_command ::
  "kernel \<Rightarrow> sigset \<Rightarrow> int \<Rightarrow> string \<Rightarrow> string list \<Rightarrow> string list \<Rightarrow> int list \<Rightarrow>
   string option \<Rightarrow> exec_command_attrs \<Rightarrow> proc \<Rightarrow> exec_outcome" where
  "exec_command k old_mask0 result executable args envp file_handles working_directory attrs s =
     (case sys_pipe s of (r, sync_pipe, s1) \<Rightarrow>
        if r \<noteq> 0 then exec_command_fail 0 old_mask0 result s1
        else
          (case sys_pthread_sigmask UNIV s1 of (r, old_mask, s2) \<Rightarrow>
             if r < 0 then exec_command_fail 0 old_mask0 result s2
             else
               (case sys_fork k s2 of (pid, s3) \<Rightarrow>
                  if pid = - 1 then
                    exec_command_fail 0 old_mask result
                      (snd (sys_close (snd sync_pipe) (snd (sys_close (fst sync_pipe) s3))))
                  else if pid = 0 then
                    In_child (child_handler k sync_pipe executable args envp file_handles
                                working_directory old_mask attrs s3)
                  else
                    (case sys_close (snd sync_pipe) s3 of (r, s4) \<Rightarrow>
                       if r < 0 then exec_command_fail 0 old_mask result s4
                       else
                         (case sys_read k (fst sync_pipe) s4 of (size_r, v, s5) \<Rightarrow>
                            (let err = (if size_r \<noteq> 4 then 0 else v);
                                 s6 = (if size_r \<noteq> 4 then s5
                                       else snd (sys_waitpid k pid 0 (s5\<lparr>errno := v\<rparr>)))
                             in (case sys_close (fst sync_pipe) s6 of (r, s7) \<Rightarrow>
                                   if r < 0 then exec_command_fail err old_mask result s7
                                   else if err \<noteq> 0 then exec_command_fail err old_mask result s7
                                   else exec_command_fail 0 old_mask pid s7)))))))"

section \<open>Notions used in the statements and proofs\<close>

text \<open>
  The state in which the child ends, in the new program or at its exit.
\<close>

fun outcome_state :: "child_outcome \<Rightarrow> child" where
  "outcome_state (Execd executable args environment s) = s"
| "outcome_state (Exited status s) = s"

text \<open>
  No descriptor is open above the descriptor limit. The kernel hands out descriptors
  below the limit only (a descriptor above it can only be left from before the limit
  was lowered); the sweep of lines 211-215 relies on it, as it stops at the limit.
\<close>

definition within_limit :: "'a proc_scheme \<Rightarrow> bool" where
  "within_limit s \<longleftrightarrow> (\<forall>fd. fds s fd \<noteq> None \<longrightarrow> fd \<le> int (nofile s))"

text \<open>
  What no step of the child after line 83 changes: the limit and the blocked mask; and
  the descriptors stay within the limit when they were.
\<close>

definition keeps :: "'a proc_scheme \<Rightarrow> 'b proc_scheme \<Rightarrow> bool" where
  "keeps s s' \<longleftrightarrow>
     nofile s' = nofile s \<and> blocked s' = blocked s \<and> (within_limit s \<longrightarrow> within_limit s')"

text \<open>
  The loop of lines 161-173 after \<open>n\<close> rounds, for the request list \<open>h\<close> with
  highest source \<open>M\<close>: \<open>g j\<close> is the open file position \<open>j\<close> asks for and
  \<open>low\<close> the table the loop started with. The descriptors up to \<open>M + 1\<close> are
  untouched; every position below \<open>n\<close> that is not in place has a close-on-exec copy
  of its source at \<open>fd_table ! j\<close>, above \<open>M + 1\<close>, above \<open>j\<close> and below
  \<open>fd_index\<close>.
\<close>

definition up_inv ::
  "int list \<Rightarrow> (nat \<Rightarrow> ofile) \<Rightarrow> int \<Rightarrow> (int \<rightharpoonup> ofile \<times> bool) \<Rightarrow> nat \<Rightarrow> child \<Rightarrow> bool" where
  "up_inv h g M low n t \<longleftrightarrow>
     length (fd_table t) = length h \<and> M + 2 \<le> fd_index t \<and> int n < fd_index t \<and>
     (\<forall>x. x \<le> M + 1 \<longrightarrow> fds t x = low x) \<and>
     (\<forall>j<length h. n \<le> j \<longrightarrow> fd_table t ! j = h ! j) \<and>
     (\<forall>j<n. h ! j = int j \<longrightarrow> fd_table t ! j = int j) \<and>
     (\<forall>j<n. h ! j \<noteq> int j \<longrightarrow>
        int j < fd_table t ! j \<and> M + 2 \<le> fd_table t ! j \<and> fd_table t ! j < fd_index t \<and>
        fds t (fd_table t ! j) = Some (g j, True))"

text \<open>
  The loop of lines 176-187 after \<open>n\<close> rounds, \<open>T\<close> being \<open>fd_table\<close>: the
  positions below \<open>n\<close> are final, the copies of the others are still there, and so
  are the sources that are in place.
\<close>

definition place_inv ::
  "int list \<Rightarrow> (nat \<Rightarrow> ofile) \<Rightarrow> int list \<Rightarrow> nat \<Rightarrow> child \<Rightarrow> bool" where
  "place_inv h g T n t \<longleftrightarrow>
     fd_table t = T \<and>
     (\<forall>j<n. fds t (int j) = Some (g j, False)) \<and>
     (\<forall>j<length h. n \<le> j \<and> h ! j \<noteq> int j \<longrightarrow> fds t (T ! j) = Some (g j, True)) \<and>
     (\<forall>j<length h. n \<le> j \<and> h ! j = int j \<longrightarrow> (\<exists>c. fds t (int j) = Some (g j, c)))"

text \<open>
  The loop of lines 161-173 after \<open>n\<close> rounds when a source \<open>c\<close> of the list is
  not open: it stays closed, and it can only be the source of its own position.
\<close>

definition closed_inv :: "int list \<Rightarrow> int \<Rightarrow> int \<Rightarrow> nat \<Rightarrow> child \<Rightarrow> bool" where
  "closed_inv h M c n t \<longleftrightarrow>
     fds t c = None \<and> M + 2 \<le> fd_index t \<and> length (fd_table t) = length h \<and>
     (\<forall>j<length h. n \<le> j \<longrightarrow> fd_table t ! j = h ! j) \<and>
     (\<forall>j<n. h ! j = c \<longrightarrow> int j = c \<and> fd_table t ! j = c)"




section \<open>Concrete inputs\<close>

text \<open>
  An attribute structure with every field set, a kernel where every call succeeds (the
  child's pid is 100 and the parent reads end-of-file from the pipe), a process with the
  three standard descriptors and a limit of 8 descriptors, attributes that ask for
  nothing, and the image of that process in the child after \<^verbatim>\<open>pipe\<close> (descriptors
  3 and 4), the blocking of all signals and \<^verbatim>\<open>fork\<close>.
\<close>

definition filled :: exec_command_attrs where
  "filled = \<lparr>setpgid = 1, pgid = 7, setctty = 1, ctty = 7, setsid = 1,
              uid = 7, gid = 7, mask_attr = 7\<rparr>"

definition calm :: kernel where
  "calm = \<lparr>NSIG = 65, calloc_null = False, setsid_err = 0, setpgid_err = 0, ioctl_err = 0,
            getrlimit_err = 0, setgid_err = 0, setreuid_err = 0, chdir_err = 0,
            execve_err = 0, write_ret = (\<lambda>n. 4), fork_ret = 100, fork_err = 0,
            read_ret = 0, read_val = 0, read_err = 0, waitpid_err = 0\<rparr>"

definition stdio :: proc where
  "stdio = \<lparr>fds = [0 \<mapsto> (File 0, False), 1 \<mapsto> (File 1, False), 2 \<mapsto> (File 2, False)],
             nofile = 8, blocked = {}, caught = {}, errno = 0, written = [],
             pipes_made = 0, waitpid_calls = [], printed = []\<rparr>"

definition plain :: exec_command_attrs where
  "plain = \<lparr>setpgid = 0, pgid = 0, setctty = 0, ctty = 0, setsid = 0,
             uid = - 1, gid = - 1, mask_attr = 0\<rparr>"

definition forked :: proc where
  "forked = \<lparr>fds = [0 \<mapsto> (File 0, False), 1 \<mapsto> (File 1, False), 2 \<mapsto> (File 2, False),
                     3 \<mapsto> (PipeRd 0, False), 4 \<mapsto> (PipeWr 0, False)],
              nofile = 8, blocked = UNIV, caught = {}, errno = 0, written = [],
              pipes_made = 1, waitpid_calls = [], printed = []\<rparr>"

section \<open>Attribute defaults\<close>

text \<open>
  C7, as stated, fails: the initialiser stores 0, not -1, in the process group id and in
  the controlling terminal descriptor.
\<close>

theorem attrs_init_ids_not_all_minus_one:
  "pgid (exec_command_attrs_init filled) = 0 \<and> pgid (exec_command_attrs_init filled) \<noteq> - 1 \<and>
   ctty (exec_command_attrs_init filled) = 0 \<and> ctty (exec_command_attrs_init filled) \<noteq> - 1"
  by (simp add: exec_command_attrs_init_def filled_def)

text \<open>
  C7, amended: whatever the structure held before, \<open>exec_command_attrs_init\<close> sets the
  three flags (setpgid, setsid, setctty) to 0 (false), the user id and the group id to -1
  (the all-ones value \<open>0xFFFFFFFF\<close> of the unsigned types), the process group id and the
  controlling terminal descriptor to 0, and the mask to 0.
\<close>

theorem attrs_init_defaults:
  "exec_command_attrs_init attrs =
     \<lparr>setpgid = 0, pgid = 0, setctty = 0, ctty = 0, setsid = 0,
      uid = 0xFFFFFFFF, gid = 0xFFFFFFFF, mask_attr = 0\<rparr>"
  by (cases attrs) (simp add: exec_command_attrs_init_def)

section \<open>The parent: pipe, fork and the handshake\<close>

text \<open>
  The definitions of the system calls, unfolded in concrete runs.
\<close>

lemmas sys_defs = sys_dup2_def sys_close_def sys_fcntl_setfd_def sys_getrlimit_nofile_def
  sys_pthread_sigmask_def sys_sigaction_dfl_def sys_call_def sys_write_def sys_pipe_def
  lowest_free_def sys_fork_def sys_read_def sys_waitpid_def EBADF_def EINVAL_def ENOMEM_def
  EMFILE_def SIGKILL_def SIGSTOP_def

lemma exec_command_fail_eq:
  "exec_command_fail err om res s =
     Returned (if err \<noteq> 0 then - 1 else 0) res
       (s\<lparr>blocked := om,
          printed := (if err \<noteq> 0 then printed s @ [Exec_command_execve err] else printed s)\<rparr>)"
  by (simp add: exec_command_fail_def sys_pthread_sigmask_def)

lemma lowest_free_Some:
  "lowest_free s = Some fd \<Longrightarrow> fds s fd = None \<and> 0 \<le> fd \<and> fd < int (nofile s)"
  by (auto simp: lowest_free_def find_Some_iff)

lemma sys_pipe_ok:
  assumes "sys_pipe s = (0, (r, w), s1)"
  shows "r \<noteq> w" and "fds s r = None" and "fds s w = None"
    and "s1 = s\<lparr>fds := (fds s)(r \<mapsto> (PipeRd (pipes_made s), False),
                                w \<mapsto> (PipeWr (pipes_made s), False)),
               pipes_made := Suc (pipes_made s)\<rparr>"
  using assms
  by (auto simp: sys_pipe_def split: option.splits if_splits dest!: lowest_free_Some)

text \<open>
  In the duplicated process \<^verbatim>\<open>exec_command\<close> hands over to \<^verbatim>\<open>child_handler\<close>; for
  the concrete process, the pipe is at the descriptors 3 and 4 and the child starts from
  the image \<open>forked\<close>.
\<close>

lemma forked_is_child_image:
  "exec_command (calm\<lparr>fork_ret := 0\<rparr>) om0 result exe args envp h wd attrs stdio
     = In_child (child_handler (calm\<lparr>fork_ret := 0\<rparr>) (3, 4) exe args envp h wd {} attrs
                   forked)"
  by (simp add: exec_command_def sys_defs calm_def stdio_def forked_def upt_conv_Cons)

text \<open>
  When \<^verbatim>\<open>pipe\<close> or \<^verbatim>\<open>fork\<close> fails, the local \<open>err\<close> is still 0 at the label
  \<^verbatim>\<open>fail\<close>, and \<^verbatim>\<open>exec_command\<close> returns 0 without storing a process id.
\<close>

lemma exec_command_setup_failure:
  assumes "fst (sys_pipe s) \<noteq> 0 \<or> fork_ret k = - 1"
  shows "\<exists>s'. exec_command k om0 result exe args envp h wd attrs s = Returned 0 result s'"
  using assms
  by (auto simp: exec_command_def exec_command_fail_eq sys_pthread_sigmask_def sys_fork_def
      split: prod.splits)

text \<open>
  C2 (pipe or fork failure is reported as an error return): the code does not do so. With
  the descriptor table full, \<^verbatim>\<open>pipe\<close> fails with \<open>EMFILE\<close> and
  \<^verbatim>\<open>exec_command\<close> returns 0; when \<^verbatim>\<open>fork\<close> fails (here with error 11), both ends
  of the pipe are closed and \<^verbatim>\<open>exec_command\<close> returns 0 as well. In both cases
  \<^verbatim>\<open>*result\<close> keeps its content.
\<close>

theorem exec_command_hides_setup_failure:
  "(case exec_command calm {} 0 ''/bin/true'' [] [] [] None plain (stdio\<lparr>nofile := 3\<rparr>) of
      Returned ret res s' \<Rightarrow> ret = 0 \<and> res = 0 \<and> errno s' = EMFILE
    | In_child out \<Rightarrow> False) \<and>
   (case exec_command (calm\<lparr>fork_ret := - 1, fork_err := 11\<rparr>) {} 0 ''/bin/true'' [] [] []
           None plain stdio of
      Returned ret res s' \<Rightarrow> ret = 0 \<and> res = 0 \<and> errno s' = 11 \<and> fds s' 3 = None \<and> fds s' 4 = None
    | In_child out \<Rightarrow> False)"
  by (simp add: exec_command_def exec_command_fail_def sys_defs calm_def stdio_def upt_conv_Cons)

text \<open>
  When \<^verbatim>\<open>pipe\<close> fails, the mask that \<^verbatim>\<open>exec_command\<close> installs before it returns
  is the content of the uninitialised local.
\<close>

lemma exec_command_pipe_failure_mask:
  assumes "fst (sys_pipe s) \<noteq> 0"
  shows "\<exists>s'. exec_command k om0 result exe args envp h wd attrs s = Returned 0 result s' \<and>
              blocked s' = om0"
  using assms
  by (auto simp: exec_command_def exec_command_fail_eq split: prod.splits)

text \<open>
  Once \<^verbatim>\<open>pipe\<close> has succeeded, every return of \<^verbatim>\<open>exec_command\<close> to its caller
  leaves the blocked mask as it was at the call.
\<close>

lemma exec_command_mask_restored:
  assumes "fst (sys_pipe s) = 0"
    and "exec_command k om0 result exe args envp h wd attrs s = Returned ret result' s'"
  shows "blocked s' = blocked s"
proof -
  obtain r w s1 where p: "sys_pipe s = (0, (r, w), s1)"
    using assms(1) by (cases "sys_pipe s") auto
  note f = sys_pipe_ok [OF p]
  from assms(2) show ?thesis
    by (auto simp: exec_command_def p f(4) exec_command_fail_eq sys_pthread_sigmask_def
        sys_fork_def sys_close_def sys_read_def sys_waitpid_def Let_def
        split: if_splits prod.splits option.splits)
qed

text \<open>
  C4 (the signal mask after the call equals the mask before it, on every exit path): not
  on the path where \<^verbatim>\<open>pipe\<close> fails. The code jumps to \<^verbatim>\<open>fail\<close> before
  \<^verbatim>\<open>pthread_sigmask\<close> has stored the previous mask in \<open>old_mask\<close>, and installs the
  indeterminate content of that local: here the caller had no signal blocked, the local
  held \<open>{2}\<close>, and the call returns with signal 2 blocked.
\<close>

theorem exec_command_mask_after_pipe_failure:
  "(case exec_command calm {2} 0 ''/bin/true'' [] [] [] None plain (stdio\<lparr>nofile := 3\<rparr>) of
      Returned ret res s' \<Rightarrow> blocked (stdio\<lparr>nofile := 3\<rparr>) = {} \<and> blocked s' = {2}
    | In_child out \<Rightarrow> False)"
  by (simp add: exec_command_def exec_command_fail_def sys_defs calm_def stdio_def upt_conv_Cons)

text \<open>
  C5: in the parent (\<^verbatim>\<open>pipe\<close> has succeeded and \<^verbatim>\<open>fork\<close> has returned a positive
  process id), when \<^verbatim>\<open>read\<close> returns fewer than 4 bytes \<^verbatim>\<open>exec_command\<close> stores the
  process id in \<^verbatim>\<open>*result\<close> and returns 0 without any call of \<^verbatim>\<open>waitpid\<close>; when it
  returns 4 bytes, an error number sent by the child (the child never sends 0),
  \<^verbatim>\<open>exec_command\<close> calls \<^verbatim>\<open>waitpid\<close> on the child with options 0 (a blocking
  wait), returns -1 with \<^verbatim>\<open>*result\<close> unchanged, prints the message of that error
  number, and leaves the error number in \<^verbatim>\<open>errno\<close> when the wait succeeded.
\<close>

theorem exec_command_parent_sync:
  assumes "fst (sys_pipe s) = 0" and "0 < fork_ret k"
  shows "(read_ret k < 4 \<longrightarrow>
            (\<exists>s'. exec_command k om0 result exe args envp h wd attrs s
                     = Returned 0 (fork_ret k) s'
                 \<and> waitpid_calls s' = waitpid_calls s)) \<and>
         (read_ret k = 4 \<and> read_val k \<noteq> 0 \<longrightarrow>
            (\<exists>s'. exec_command k om0 result exe args envp h wd attrs s
                     = Returned (- 1) result s'
                 \<and> waitpid_calls s' = waitpid_calls s @ [(fork_ret k, 0)]
                 \<and> printed s' = printed s @ [Exec_command_execve (read_val k)]
                 \<and> (waitpid_err k = 0 \<longrightarrow> errno s' = read_val k)))"
proof -
  obtain r w s1 where p: "sys_pipe s = (0, (r, w), s1)"
    using assms(1) by (cases "sys_pipe s") auto
  note f = sys_pipe_ok [OF p]
  show ?thesis
    using assms(2) f(1)
    by (simp add: exec_command_def p f(4) exec_command_fail_eq sys_pthread_sigmask_def
        sys_fork_def sys_close_def sys_read_def sys_waitpid_def Let_def)
qed

text \<open>
  C5 at a concrete call: end-of-file on the pipe, and the error number 2 on the pipe.
\<close>

theorem exec_command_parent_sync_witness:
  "(\<exists>s'. exec_command calm {} 7 ''/bin/true'' [] [] [] None plain stdio = Returned 0 100 s'
        \<and> waitpid_calls s' = []) \<and>
   (\<exists>s'. exec_command (calm\<lparr>read_ret := 4, read_val := 2\<rparr>) {} 7 ''/bin/true'' [] [] [] None plain stdio
          = Returned (- 1) 7 s'
        \<and> waitpid_calls s' = [(100, 0)] \<and> printed s' = [Exec_command_execve 2] \<and> errno s' = 2)"
proof -
  have p: "fst (sys_pipe stdio) = 0"
    by (simp add: sys_defs stdio_def upt_conv_Cons)
  have a: "0 < fork_ret calm" "read_ret calm < 4" by (simp_all add: calm_def)
  have b: "0 < fork_ret (calm\<lparr>read_ret := 4, read_val := 2\<rparr>)"
     "read_ret (calm\<lparr>read_ret := 4, read_val := 2\<rparr>) = 4 \<and> read_val (calm\<lparr>read_ret := 4, read_val := 2\<rparr>) \<noteq> 0"
     "waitpid_err (calm\<lparr>read_ret := 4, read_val := 2\<rparr>) = 0"
    by (simp_all add: calm_def)
  have c: "waitpid_calls stdio = []" "printed stdio = []" by (simp_all add: stdio_def)
  show ?thesis
    using exec_command_parent_sync [OF p a(1), of "{}" 7 "''/bin/true''" "[]" "[]" "[]" None plain]
      exec_command_parent_sync [OF p b(1), of "{}" 7 "''/bin/true''" "[]" "[]" "[]" None plain]
      a b c
    by (simp add: calm_def)
qed

text \<open>
  C10: whenever \<^verbatim>\<open>exec_command\<close> returns -1, \<^verbatim>\<open>*result\<close> holds what it held at the
  call; a call that changes \<^verbatim>\<open>*result\<close> returns 0.
\<close>

theorem exec_command_result_only_on_success:
  assumes "exec_command k om0 result exe args envp h wd attrs s = Returned ret result' s'"
  shows "(ret = - 1 \<longrightarrow> result' = result) \<and> (result' \<noteq> result \<longrightarrow> ret = 0)"
  using assms
  by (auto simp: exec_command_def exec_command_fail_eq Let_def split: prod.splits if_splits)

text \<open>
  C10 at a concrete call, where the child reports the error number 2.
\<close>

theorem exec_command_result_only_on_success_witness:
  "\<exists>s'. exec_command (calm\<lparr>read_ret := 4, read_val := 2\<rparr>) {} 7 ''/bin/true'' [] [] [] None plain stdio
          = Returned (- 1) 7 s'"
proof -
  have "\<exists>res s'. exec_command (calm\<lparr>read_ret := 4, read_val := 2\<rparr>) {} 7 ''/bin/true'' [] [] [] None plain stdio
          = Returned (- 1) res s'"
    by (simp add: exec_command_def exec_command_fail_def sys_defs calm_def stdio_def upt_conv_Cons)
  then obtain res s' where e: "exec_command (calm\<lparr>read_ret := 4, read_val := 2\<rparr>) {} 7 ''/bin/true'' [] [] [] None plain stdio
          = Returned (- 1) res s'" by blast
  from exec_command_result_only_on_success [OF e] have "res = 7" by simp
  with e show ?thesis by blast
qed

section \<open>The failure handler of the child\<close>




lemma write_retry_blocked:
  "write_retry k e n s = Some y \<Longrightarrow> blocked y = blocked s"
proof (erule write_retry.raw_induct [rotated])
  fix f k e n s y
  assume ih: "\<And>k e n s y. f k e n s = Some y \<Longrightarrow> blocked y = blocked s"
    and st: "(case sys_write k (syncfd s) e n s of
        (r, s1) \<Rightarrow> if r < 0 then f k e (Suc n) s1 else Some s1) = Some y"
  obtain r s1 where w: "sys_write k (syncfd s) e n s = (r, s1)"
    by (cases "sys_write k (syncfd s) e n s")
  then have b: "blocked s1 = blocked s"
    by (auto simp: sys_write_def split: option.splits if_splits)
  show "blocked y = blocked s"
  proof (cases "r < 0")
    case True
    with st w have "f k e (Suc n) s1 = Some y" by simp
    from ih [OF this] b show ?thesis by simp
  next
    case False
    with st w b show ?thesis by simp
  qed
qed

lemma child_fail_blocked:
  assumes "child_fail k s = Some out"
  shows "blocked (outcome_state out) = blocked s"
proof (cases "errno s = 0")
  case True
  with assms show ?thesis by (auto simp: child_fail_def Let_def split: if_splits)
next
  case False
  let ?s = "if fd_table_live s then s\<lparr>fd_table_live := False\<rparr> else s"
  from False assms obtain y where y: "write_retry k (errno s) 0 ?s = Some y"
    and out: "out = Exited 127 y"
    by (auto simp: child_fail_def Let_def split: if_splits option.splits)
  from write_retry_blocked [OF y] out show ?thesis by (simp split: if_splits)
qed



section \<open>What the steps of the child leave alone\<close>

lemma sigaction_loop_frame:
  "fds (fold (\<lambda>i t. snd (sys_sigaction_dfl i t)) xs s) = fds s \<and>
   nofile (fold (\<lambda>i t. snd (sys_sigaction_dfl i t)) xs s) = nofile s \<and>
   syncfd (fold (\<lambda>i t. snd (sys_sigaction_dfl i t)) xs s) = syncfd s \<and>
   fd_index (fold (\<lambda>i t. snd (sys_sigaction_dfl i t)) xs s) = fd_index s \<and>
   fd_table (fold (\<lambda>i t. snd (sys_sigaction_dfl i t)) xs s) = fd_table s"
  by (induction xs arbitrary: s) (simp_all add: sys_sigaction_dfl_def)

text \<open>
  The loop of lines 75-77 in one step: \<^verbatim>\<open>sigaction\<close> fails on signal 0, which leaves
  \<open>EINVAL\<close> in \<^verbatim>\<open>errno\<close>, and every signal whose action can change loses its handler.
\<close>

lemma sigaction_loop_eq:
  "fold (\<lambda>i t. snd (sys_sigaction_dfl i t)) [0..<n] s =
     (if n = 0 then s
      else s\<lparr>errno := EINVAL,
             caught := caught s - {i. 0 < i \<and> i < n \<and> i \<noteq> SIGKILL \<and> i \<noteq> SIGSTOP}\<rparr>)"
proof (induction n)
  case 0
  show ?case by simp
next
  case (Suc n)
  define A where "A = (\<lambda>m. {i. 0 < i \<and> i < m \<and> i \<noteq> SIGKILL \<and> i \<noteq> SIGSTOP})"
  have step: "fold (\<lambda>i t. snd (sys_sigaction_dfl i t)) [0..<Suc n] s
                = snd (sys_sigaction_dfl n (fold (\<lambda>i t. snd (sys_sigaction_dfl i t)) [0..<n] s))"
    by simp
  have res: "fold (\<lambda>i t. snd (sys_sigaction_dfl i t)) [0..<Suc n] s
               = s\<lparr>errno := EINVAL, caught := caught s - A (Suc n)\<rparr>"
  proof (cases "n = 0")
    case True
    have "A (Suc 0) = {}" by (auto simp: A_def)
    with True show ?thesis
      unfolding step by (simp add: sys_sigaction_dfl_def)
  next
    case False
    with Suc have ih: "fold (\<lambda>i t. snd (sys_sigaction_dfl i t)) [0..<n] s
                         = s\<lparr>errno := EINVAL, caught := caught s - A n\<rparr>"
      by (simp add: A_def)
    show ?thesis
    proof (cases "n = SIGKILL \<or> n = SIGSTOP")
      case True
      then have "A (Suc n) = A n" by (auto simp: A_def less_Suc_eq)
      with True show ?thesis
        unfolding step ih by (simp add: sys_sigaction_dfl_def)
    next
      case stays: False
      with False have "caught s - A n - {n} = caught s - A (Suc n)"
        by (auto simp: A_def less_Suc_eq)
      with stays False show ?thesis
        unfolding step ih by (simp add: sys_sigaction_dfl_def)
    qed
  qed
  show ?case unfolding res A_def by simp
qed

lemma child_signals_eq:
  assumes "fds s (fst sp) \<noteq> None"
  shows "child_signals k sp s =
           Inr ((if NSIG k = 0 then s\<lparr>fds := (fds s)(fst sp := None)\<rparr>
                 else s\<lparr>fds := (fds s)(fst sp := None), errno := EINVAL,
                        caught := caught s - {i. 0 < i \<and> i < NSIG k \<and> i \<noteq> SIGKILL \<and>
                                                 i \<noteq> SIGSTOP}\<rparr>)
                \<lparr>blocked := {}\<rparr>)"
  using assms
  by (auto simp: child_signals_def sys_close_def sys_pthread_sigmask_def sigaction_loop_eq)

lemma child_setup_Inr:
  assumes "child_setup k sp h p = Inr s"
  shows "fds s = (fds p)(fst sp := None)" and "nofile s = nofile p" and "syncfd s = snd sp"
    and "fd_index s = 0" and "length (fd_table s) = length h" and "blocked s = {}"
  using assms
  by (auto simp: child_setup_def child_alloc_def child_signals_def child_locals_def then_do_def
      sys_close_def sys_pthread_sigmask_def sigaction_loop_frame
      split: if_splits option.splits)

text \<open>
  The definitions of the steps of the child, unfolded in concrete runs.
\<close>

lemmas child_defs = child_descriptors_def child_shuffle_def child_sync_def child_highest_def
  then_do_def move_up_def place_def child_session_def child_cloexec_def mark_cloexec_def
  child_locals_def child_alloc_def child_signals_eq child_setup_def child_identity_def
  child_fail_def child_handler_def

lemma keeps_refl: "keeps s s"
  by (simp add: keeps_def)

lemma keeps_trans: "keeps s t \<Longrightarrow> keeps t u \<Longrightarrow> keeps s u"
  by (simp add: keeps_def)

lemma keeps_sys_dup2: "keeps s (snd (sys_dup2 a b s))"
  by (auto simp: keeps_def within_limit_def sys_dup2_def split: option.splits)

lemma keeps_sys_close: "keeps s (snd (sys_close a s))"
  by (auto simp: keeps_def within_limit_def sys_close_def split: option.splits)

lemma keeps_sys_fcntl_setfd: "keeps s (snd (sys_fcntl_setfd a c s))"
  by (auto simp: keeps_def within_limit_def sys_fcntl_setfd_def split: option.splits)

lemma keeps_sys_call: "keeps s (snd (sys_call e s))"
  by (auto simp: keeps_def within_limit_def sys_call_def)

lemma keeps_locals:
  "keeps s (s\<lparr>fd_index := a\<rparr>)" "keeps s (s\<lparr>fd_table := b\<rparr>)" "keeps s (s\<lparr>syncfd := c\<rparr>)"
  by (simp_all add: keeps_def within_limit_def)

lemma keeps_locals2: "keeps s (s\<lparr>fd_table := b, fd_index := a\<rparr>)"
  by (simp add: keeps_def within_limit_def)

lemma then_do_keeps:
  assumes "then_do r f = Inr u \<or> then_do r f = Inl u"
    and "\<And>t. r = Inl t \<Longrightarrow> keeps s t"
    and "\<And>t. r = Inr t \<Longrightarrow> f t = Inr u \<or> f t = Inl u \<Longrightarrow> keeps s u"
  shows "keeps s u"
  using assms by (cases r) (auto simp: then_do_def)

lemma for_each_keeps:
  assumes body: "\<And>i u u'. body i u = Inr u' \<or> body i u = Inl u' \<Longrightarrow> keeps u u'"
  shows "for_each xs body s = Inr s' \<or> for_each xs body s = Inl s' \<Longrightarrow> keeps s s'"
proof (induction xs arbitrary: s)
  case Nil
  then show ?case by (simp add: keeps_refl)
next
  case (Cons i xs)
  show ?case
  proof (cases "body i s")
    case (Inl e)
    with Cons.prems body [of i s e] show ?thesis by simp
  next
    case (Inr u)
    with Cons.prems have "for_each xs body u = Inr s' \<or> for_each xs body u = Inl s'" by simp
    from Cons.IH [OF this] body [of i s u] Inr show ?thesis by (blast intro: keeps_trans)
  qed
qed

lemma move_up_keeps:
  assumes "move_up i s = Inr s' \<or> move_up i s = Inl s'"
  shows "keeps s s'"
proof (cases "fd_table s ! i = int i")
  case True
  with assms show ?thesis by (simp add: move_up_def keeps_refl)
next
  case False
  obtain r s1 where d: "sys_dup2 (fd_table s ! i) (fd_index s) s = (r, s1)"
    by (cases "sys_dup2 (fd_table s ! i) (fd_index s) s")
  obtain r2 s2 where f: "sys_fcntl_setfd (fd_index s1) True s1 = (r2, s2)"
    by (cases "sys_fcntl_setfd (fd_index s1) True s1")
  from keeps_sys_dup2 [of s "fd_table s ! i" "fd_index s"] d have k1: "keeps s s1" by simp
  from keeps_sys_fcntl_setfd [of s1 "fd_index s1" True] f have k2: "keeps s1 s2" by simp
  from assms False d f
  have "s' = s1 \<or> s' = s2 \<or> s' = s2\<lparr>fd_table := (fd_table s2)[i := fd_index s2],
                              fd_index := fd_index s2 + 1\<rparr>"
    by (simp add: move_up_def split: if_splits)
  with k1 k2 keeps_locals2 [of s2] show ?thesis
    by (blast intro: keeps_trans)
qed

lemma place_keeps:
  assumes "place i s = Inr s' \<or> place i s = Inl s'"
  shows "keeps s s'"
proof -
  obtain r s1 where d: "sys_dup2 (fd_table s ! i) (int i) s = (r, s1)"
    by (cases "sys_dup2 (fd_table s ! i) (int i) s")
  obtain r2 s2 where f: "sys_fcntl_setfd (int i) False s1 = (r2, s2)"
    by (cases "sys_fcntl_setfd (int i) False s1")
  obtain r3 s3 where g: "sys_fcntl_setfd (int i) False s = (r3, s3)"
    by (cases "sys_fcntl_setfd (int i) False s")
  from keeps_sys_dup2 [of s "fd_table s ! i" "int i"] d have k1: "keeps s s1" by simp
  from keeps_sys_fcntl_setfd [of s1 "int i" False] f have k2: "keeps s1 s2" by simp
  from keeps_sys_fcntl_setfd [of s "int i" False] g have k3: "keeps s s3" by simp
  from assms d f g have "s' = s1 \<or> s' = s2 \<or> s' = s3"
    by (simp add: place_def then_do_def split: if_splits)
  with k1 k2 k3 show ?thesis by (blast intro: keeps_trans)
qed

lemma mark_cloexec_keeps:
  assumes "mark_cloexec i s = Inr s' \<or> mark_cloexec i s = Inl s'"
  shows "keeps s s'"
proof -
  obtain r s1 where f: "sys_fcntl_setfd (int i) True s = (r, s1)"
    by (cases "sys_fcntl_setfd (int i) True s")
  from keeps_sys_fcntl_setfd [of s "int i" True] f have "keeps s s1" by simp
  moreover from assms f have "s' = s1" by (simp add: mark_cloexec_def split: if_splits)
  ultimately show ?thesis by simp
qed

lemma fold_keeps:
  assumes "\<And>i t. keeps t (f i t)"
  shows "keeps s (fold f xs s)"
proof (induction xs arbitrary: s)
  case Nil
  show ?case by (simp add: keeps_refl)
next
  case (Cons i xs)
  from assms [of s i] Cons.IH [of "f i s"] show ?case by (auto intro: keeps_trans)
qed

lemma child_highest_keeps: "keeps s (child_highest h s)"
  unfolding child_highest_def
  by (rule fold_keeps) (simp add: keeps_def within_limit_def)

lemma child_sync_keeps:
  assumes "child_sync s = Inr s' \<or> child_sync s = Inl s'"
  shows "keeps s s'"
proof -
  let ?s0 = "s\<lparr>fd_index := fd_index s + 1\<rparr>"
  obtain r s1 where d: "sys_dup2 (syncfd ?s0) (fd_index ?s0) ?s0 = (r, s1)"
    by (cases "sys_dup2 (syncfd ?s0) (fd_index ?s0) ?s0")
  obtain r2 s2 where c: "sys_close (syncfd s1) s1 = (r2, s2)"
    by (cases "sys_close (syncfd s1) s1")
  let ?s3 = "s2\<lparr>syncfd := fd_index s2\<rparr>"
  obtain r3 s4 where f: "sys_fcntl_setfd (syncfd ?s3) True (?s3\<lparr>fd_index := fd_index ?s3 + 1\<rparr>) = (r3, s4)"
    by (cases "sys_fcntl_setfd (syncfd ?s3) True (?s3\<lparr>fd_index := fd_index ?s3 + 1\<rparr>)")
  obtain r4 s5 where g: "sys_fcntl_setfd (syncfd ?s0) True (?s0\<lparr>fd_index := fd_index ?s0 + 1\<rparr>) = (r4, s5)"
    by (cases "sys_fcntl_setfd (syncfd ?s0) True (?s0\<lparr>fd_index := fd_index ?s0 + 1\<rparr>)")
  have k0: "keeps s ?s0" by (rule keeps_locals)
  from keeps_sys_dup2 [of ?s0 "syncfd ?s0" "fd_index ?s0"] d have k1: "keeps ?s0 s1" by simp
  from keeps_sys_close [of s1 "syncfd s1"] c have k2: "keeps s1 s2" by simp
  have k3: "keeps s2 (?s3\<lparr>fd_index := fd_index ?s3 + 1\<rparr>)"
    by (simp add: keeps_def within_limit_def)
  from keeps_sys_fcntl_setfd [of "?s3\<lparr>fd_index := fd_index ?s3 + 1\<rparr>" "syncfd ?s3" True] f
  have k4: "keeps (?s3\<lparr>fd_index := fd_index ?s3 + 1\<rparr>) s4" by simp
  have k5: "keeps ?s0 (?s0\<lparr>fd_index := fd_index ?s0 + 1\<rparr>)" by (rule keeps_locals)
  from keeps_sys_fcntl_setfd [of "?s0\<lparr>fd_index := fd_index ?s0 + 1\<rparr>" "syncfd ?s0" True] g
  have k6: "keeps (?s0\<lparr>fd_index := fd_index ?s0 + 1\<rparr>) s5" by simp
  from assms d c f g have "s' = s1 \<or> s' = s2 \<or> s' = s4 \<or> s' = s5"
    by (simp add: child_sync_def Let_def then_do_def split: if_splits)
  with k0 k1 k2 k3 k4 k5 k6 show ?thesis by (blast intro: keeps_trans)
qed

lemma move_up_loop_keeps:
  assumes "for_each xs move_up s = Inr s' \<or> for_each xs move_up s = Inl s'"
  shows "keeps s s'"
  by (rule for_each_keeps [OF _ assms]) (rule move_up_keeps)

lemma place_loop_keeps:
  assumes "for_each xs place s = Inr s' \<or> for_each xs place s = Inl s'"
  shows "keeps s s'"
  by (rule for_each_keeps [OF _ assms]) (rule place_keeps)

lemma mark_cloexec_loop_keeps:
  assumes "for_each xs mark_cloexec s = Inr s' \<or> for_each xs mark_cloexec s = Inl s'"
  shows "keeps s s'"
  by (rule for_each_keeps [OF _ assms]) (rule mark_cloexec_keeps)

lemma child_shuffle_keeps:
  assumes "child_shuffle h s = Inr s' \<or> child_shuffle h s = Inl s'"
  shows "keeps s s'"
  using assms unfolding child_shuffle_def
proof (rule then_do_keeps)
  fix t assume "child_sync (child_highest h s) = Inl t"
  with child_sync_keeps child_highest_keeps show "keeps s t" by (blast intro: keeps_trans)
next
  fix t
  assume a: "child_sync (child_highest h s) = Inr t"
    and b: "then_do (for_each [0..<length h] move_up t) (for_each [0..<length h] place) = Inr s' \<or>
       then_do (for_each [0..<length h] move_up t) (for_each [0..<length h] place) = Inl s'"
  from a child_sync_keeps child_highest_keeps have st: "keeps s t" by (blast intro: keeps_trans)
  from b have "keeps t s'"
  proof (rule then_do_keeps)
    fix u assume "for_each [0..<length h] move_up t = Inl u"
    then show "keeps t u" by (blast intro: move_up_loop_keeps)
  next
    fix u assume c: "for_each [0..<length h] move_up t = Inr u"
      and d: "for_each [0..<length h] place u = Inr s' \<or> for_each [0..<length h] place u = Inl s'"
    from c have "keeps t u" by (blast intro: move_up_loop_keeps)
    moreover from d have "keeps u s'" by (rule place_loop_keeps)
    ultimately show "keeps t s'" by (rule keeps_trans)
  qed
  with st show "keeps s s'" by (rule keeps_trans)
qed

lemma guarded_call_keeps:
  assumes "(if c then (case sys_call e s of (r, s1) \<Rightarrow> if P r then Inl s1 else Inr s1) else Inr s) = Inr s' \<or>
           (if c then (case sys_call e s of (r, s1) \<Rightarrow> if P r then Inl s1 else Inr s1) else Inr s) = Inl s'"
  shows "keeps s s' \<and> fds s' = fds s"
  using assms 
  by (auto simp: sys_call_def keeps_def within_limit_def split: if_splits)

lemma child_session_keeps:
  assumes "child_session k attrs s = Inr s' \<or> child_session k attrs s = Inl s'"
  shows "keeps s s' \<and> fds s' = fds s"
  using assms unfolding child_session_def then_do_def
  by (auto split: sum.splits dest!: guarded_call_keeps [OF disjI1] guarded_call_keeps [OF disjI2]
      intro: keeps_trans)

lemma child_identity_keeps:
  assumes "child_identity k attrs cwd s = Inr s' \<or> child_identity k attrs cwd s = Inl s'"
  shows "keeps s s' \<and> fds s' = fds s"
  using assms unfolding child_identity_def then_do_def
  by (auto split: sum.splits dest!: guarded_call_keeps [OF disjI1] guarded_call_keeps [OF disjI2]
      intro: keeps_trans)

lemma child_cloexec_keeps:
  assumes "child_cloexec k n s = Inr s' \<or> child_cloexec k n s = Inl s'"
  shows "keeps s s'"
proof (cases "getrlimit_err k = 0")
  case True
  with assms show ?thesis
    by (auto simp: child_cloexec_def sys_getrlimit_nofile_def intro: mark_cloexec_loop_keeps)
next
  case False
  with assms show ?thesis
    by (auto simp: child_cloexec_def sys_getrlimit_nofile_def keeps_def within_limit_def)
qed

lemma child_descriptors_keeps:
  assumes "child_descriptors k attrs h s = Inr s' \<or> child_descriptors k attrs h s = Inl s'"
  shows "keeps s s'"
  using assms unfolding child_descriptors_def
proof (rule then_do_keeps)
  fix t assume "child_shuffle h s = Inl t"
  then show "keeps s t" by (blast intro: child_shuffle_keeps)
next
  fix t
  assume a: "child_shuffle h s = Inr t"
    and b: "then_do (child_session k attrs t) (child_cloexec k (length h)) = Inr s' \<or>
            then_do (child_session k attrs t) (child_cloexec k (length h)) = Inl s'"
  from a have st: "keeps s t" by (blast intro: child_shuffle_keeps)
  from b have "keeps t s'"
  proof (rule then_do_keeps)
    fix u assume "child_session k attrs t = Inl u"
    then show "keeps t u" using child_session_keeps [of k attrs t u] by blast
  next
    fix u assume "child_session k attrs t = Inr u"
      and "child_cloexec k (length h) u = Inr s' \<or> child_cloexec k (length h) u = Inl s'"
    then show "keeps t s'"
      using child_session_keeps [of k attrs t u] child_cloexec_keeps [of k "length h" u s']
      by (blast intro: keeps_trans)
  qed
  with st show "keeps s s'" by (rule keeps_trans)
qed

text \<open>
  C9: the outcome of \<^verbatim>\<open>child_handler\<close> does not depend on the field \<open>mask\<close> of the
  attributes; and once the child has passed line 83 (the allocation and the close of the
  parent's end of the pipe have succeeded), its blocked mask is empty wherever it ends, in
  the new program or at its exit.
\<close>

theorem child_mask_ignored:
  "child_handler k sp exe args env h cwd om (attrs\<lparr>mask_attr := m\<rparr>) p
     = child_handler k sp exe args env h cwd om attrs p \<and>
   (\<forall>s out. child_setup k sp h p = Inr s \<and>
             child_handler k sp exe args env h cwd om attrs p = Some out
      \<longrightarrow> blocked (outcome_state out) = {})"
proof (intro conjI allI impI)
  have i: "child_identity k (attrs\<lparr>mask_attr := m\<rparr>) cwd = child_identity k attrs cwd"
    by (rule ext) (simp add: child_identity_def)
  have d: "child_descriptors k (attrs\<lparr>mask_attr := m\<rparr>) h = child_descriptors k attrs h"
    by (rule ext) (simp add: child_descriptors_def child_session_def)
  show "child_handler k sp exe args env h cwd om (attrs\<lparr>mask_attr := m\<rparr>) p
          = child_handler k sp exe args env h cwd om attrs p"
    by (simp add: child_handler_def i d)
next
  fix s out
  assume a: "child_setup k sp h p = Inr s \<and>
             child_handler k sp exe args env h cwd om attrs p = Some out"
  then have a1: "child_setup k sp h p = Inr s"
    and a2: "child_handler k sp exe args env h cwd om attrs p = Some out" by simp_all
  from a1 have b0: "blocked s = {}" by (rule child_setup_Inr(6))
  let ?r = "then_do (child_descriptors k attrs h s) (child_identity k attrs cwd)"
  have kp: "keeps s t" if "?r = Inr t \<or> ?r = Inl t" for t
    using that
  proof (rule then_do_keeps)
    fix u assume "child_descriptors k attrs h s = Inl u"
    then show "keeps s u" by (blast intro: child_descriptors_keeps)
  next
    fix u assume "child_descriptors k attrs h s = Inr u"
      and "child_identity k attrs cwd u = Inr t \<or> child_identity k attrs cwd u = Inl t"
    then show "keeps s t"
      using child_descriptors_keeps [of k attrs h s u] child_identity_keeps [of k attrs cwd u t]
      by (blast intro: keeps_trans)
  qed
  show "blocked (outcome_state out) = {}"
  proof (cases ?r)
    case (Inl t)
    with a1 a2 have "child_fail k t = Some out" by (simp add: child_handler_def then_do_def)
    from child_fail_blocked [OF this] kp [of t] Inl b0 show ?thesis by (simp add: keeps_def)
  next
    case (Inr t)
    from kp [of t] Inr b0 have bt: "blocked t = {}" by (simp add: keeps_def)
    show ?thesis
    proof (cases "execve_err k = 0")
      case True
      with a1 a2 Inr have "out = Execd exe args env t"
        by (auto simp: child_handler_def then_do_def sys_call_def)
      with bt show ?thesis by simp
    next
      case False
      with a1 a2 Inr have "child_fail k (t\<lparr>errno := execve_err k\<rparr>) = Some out"
        by (simp add: child_handler_def then_do_def sys_call_def)
      from child_fail_blocked [OF this] bt show ?thesis by simp
    qed
  qed
qed

text \<open>
  C9 at a concrete call with the mask field set to 5: the child had every signal blocked
  and reaches the new program with none blocked.
\<close>

theorem child_mask_ignored_witness:
  "\<exists>out. child_handler calm (3, 4) ''/bin/true'' [] [] [2, 0, 2] None {}
            (plain\<lparr>mask_attr := 5\<rparr>) forked = Some out \<and>
         blocked (outcome_state out) = {} \<and> blocked forked = UNIV"
proof -
  have "\<exists>s. child_setup calm (3, 4) [2, 0, 2] forked = Inr s"
    by (simp add: child_defs sys_defs calm_def forked_def upt_conv_Cons)
  then obtain s where init: "child_setup calm (3, 4) [2, 0, 2] forked = Inr s" ..
  have "\<exists>out. child_handler calm (3, 4) ''/bin/true'' [] [] [2, 0, 2] None {} plain forked
          = Some out"
    by (simp add: child_defs sys_defs calm_def forked_def plain_def upt_conv_Cons)
  then obtain out where
    out: "child_handler calm (3, 4) ''/bin/true'' [] [] [2, 0, 2] None {} plain forked = Some out" ..
  from child_mask_ignored [where k = calm and sp = "(3, 4)" and exe = "''/bin/true''"
      and args = "[]" and env = "[]" and h = "[2, 0, 2]" and cwd = None and om = "{}"
      and attrs = plain and m = 5 and p = forked] init out
  show ?thesis by (auto simp: forked_def)
qed

section \<open>The relocation of the pipe\<close>

lemma highest_step:
  "n \<le> length h \<Longrightarrow> length (fd_table s) = length h \<Longrightarrow>
   fold (\<lambda>i t. (if fd_index t < h ! i then t\<lparr>fd_index := h ! i\<rparr> else t)
                \<lparr>fd_table := (fd_table t)[i := h ! i]\<rparr>) [0..<n] s
   = s\<lparr>fd_index := Max (insert (fd_index s) (set (take n h))),
       fd_table := take n h @ drop n (fd_table s)\<rparr>"
proof (induction n)
  case 0
  then show ?case by simp
next
  case (Suc n)
  then have n: "n < length h" "n < length (fd_table s)" by simp_all
  have t: "take (Suc n) h = take n h @ [h ! n]"
    using n by (simp add: take_Suc_conv_app_nth)
  have u: "(take n h @ drop n (fd_table s))[n := h ! n]
            = take (Suc n) h @ drop (Suc n) (fd_table s)"
    using n by (simp add: t list_update_append Cons_nth_drop_Suc [symmetric] min_def)
  have m: "Max (insert (fd_index s) (set (take (Suc n) h)))
            = max (h ! n) (Max (insert (fd_index s) (set (take n h))))"
  proof -
    have "insert (fd_index s) (set (take (Suc n) h))
            = insert (h ! n) (insert (fd_index s) (set (take n h)))"
      by (auto simp: t)
    moreover have "Max (insert (h ! n) (insert (fd_index s) (set (take n h))))
            = max (h ! n) (Max (insert (fd_index s) (set (take n h))))"
      by (rule Max_insert) simp_all
    ultimately show ?thesis by (simp only:)
  qed
  define M where "M = Max (insert (fd_index s) (set (take n h)))"
  let ?B = "\<lambda>i t. (if fd_index t < h ! i then t\<lparr>fd_index := h ! i\<rparr> else t)
                \<lparr>fd_table := (fd_table t)[i := h ! i]\<rparr>"
  let ?R = "s\<lparr>fd_index := M, fd_table := take n h @ drop n (fd_table s)\<rparr>"
  have "fold ?B [0..<Suc n] s = ?B n (fold ?B [0..<n] s)" by simp
  also have "fold ?B [0..<n] s = ?R" using Suc by (simp add: M_def)
  also have "?B n ?R = s\<lparr>fd_index := max (h ! n) M,
       fd_table := take (Suc n) h @ drop (Suc n) (fd_table s)\<rparr>"
    by (simp add: u max_def)
  finally show ?case by (simp only: m M_def)
qed

lemma child_highest_eq:
  "length (fd_table s) = length h \<Longrightarrow>
   child_highest h s = s\<lparr>fd_index := Max (insert (fd_index s) (set h)), fd_table := h\<rparr>"
  using highest_step [of "length h" h s] by (simp add: child_highest_def)

text \<open>
  Lines 133-158 as one step: the descriptor of the pipe is closed (when it is not yet the
  descriptor after the highest source) and the descriptor after the highest source names
  the pipe, close-on-exec. The highest source counts as 0 when the list has none.
\<close>

lemma sync_relocated:
  assumes init: "child_setup k sp h p = Inr s" and live: "fds s (syncfd s) = Some d"
    and room: "syncfd s \<noteq> Max (insert 0 (set h)) + 1 \<longrightarrow>
               Max (insert 0 (set h)) + 1 < int (nofile s)"
  shows "\<exists>t. child_sync (child_highest h s) = Inr t \<and>
             syncfd t = Max (insert 0 (set h)) + 1 \<and>
             fds t = ((fds s)(syncfd s := None))(Max (insert 0 (set h)) + 1 \<mapsto> (fst d, True))"
proof -
  define M where "M = Max (insert 0 (set h))"
  note st = child_setup_Inr [OF init]
  have hi: "child_highest h s = s\<lparr>fd_index := M, fd_table := h\<rparr>"
    using child_highest_eq [of s h] st by (simp add: M_def)
  have M0: "0 \<le> M" by (simp add: M_def)
  show ?thesis
  proof (cases "syncfd s = M + 1")
    case True
    with live M0 show ?thesis
      unfolding M_def [symmetric] hi
      by (simp add: child_sync_def Let_def then_do_def sys_fcntl_setfd_def)
  next
    case False
    with room have "M + 1 < int (nofile s)" by (simp add: M_def)
    with False live M0 show ?thesis
      unfolding M_def [symmetric] hi
      by (simp add: child_sync_def Let_def then_do_def sys_fcntl_setfd_def sys_dup2_def
        sys_close_def fun_upd_twist)
  qed
qed

text \<open>
  C8, as stated, fails: with the sources 0, 1, 2 the descriptor after the highest source
  is 3; the pipe is at 4, beyond it, and is moved all the same, down to 3, and 4 is
  closed.
\<close>

theorem sync_moved_although_beyond:
  "(case then_do (child_setup calm (3, 4) [0, 1, 2] forked)
           (\<lambda>s. child_sync (child_highest [0, 1, 2] s)) of
      Inr t \<Rightarrow> Max (insert 0 (set [0, 1, 2])) + 1 < (4 :: int) \<and> syncfd t = 3 \<and> fds t 4 = None
    | Inl t \<Rightarrow> False)"
  by (simp add: child_defs sys_defs calm_def forked_def upt_conv_Cons)

text \<open>
  C8, amended: the pipe is moved to one plus the highest source (1 when there is no
  source above 0) by \<^verbatim>\<open>dup2\<close> and \<^verbatim>\<open>close\<close> of the original, which leaves every other
  descriptor alone; the move is skipped exactly when the pipe is already at that
  descriptor (a pipe beyond it is moved down to it); in both cases the descriptor is then
  marked close-on-exec.
\<close>

theorem sync_relocation:
  assumes init: "child_setup k sp h p = Inr s" and live: "fds s (syncfd s) = Some d"
    and room: "Max (insert 0 (set h)) + 1 < int (nofile s)"
  shows "\<exists>t. child_sync (child_highest h s) = Inr t \<and>
             syncfd t = Max (insert 0 (set h)) + 1 \<and>
             fds t (syncfd t) = Some (fst d, True) \<and>
             (if syncfd s = Max (insert 0 (set h)) + 1
              then (\<forall>fd. fd \<noteq> syncfd s \<longrightarrow> fds t fd = fds s fd)
              else fds t (syncfd s) = None \<and>
                   (\<forall>fd. fd \<noteq> syncfd s \<and> fd \<noteq> syncfd t \<longrightarrow> fds t fd = fds s fd))"
proof -
  from sync_relocated [OF init live] room obtain t where
    "child_sync (child_highest h s) = Inr t" "syncfd t = Max (insert 0 (set h)) + 1"
    "fds t = ((fds s)(syncfd s := None))(Max (insert 0 (set h)) + 1 \<mapsto> (fst d, True))"
    by blast
  then show ?thesis by auto
qed

text \<open>
  C8 at the concrete child with the sources 0, 1, 2.
\<close>

theorem sync_relocation_witness:
  "\<exists>s t. child_setup calm (3, 4) [0, 1, 2] forked = Inr s \<and>
         child_sync (child_highest [0, 1, 2] s) = Inr t \<and>
         syncfd t = 3 \<and> fds t 3 = Some (PipeWr 0, True) \<and> fds t 4 = None"
proof -
  have "\<exists>s. child_setup calm (3, 4) [0, 1, 2] forked = Inr s"
    by (simp add: child_defs sys_defs calm_def forked_def upt_conv_Cons)
  then obtain s where init: "child_setup calm (3, 4) [0, 1, 2] forked = Inr s" ..
  note st = child_setup_Inr [OF init]
  have live: "fds s (syncfd s) = Some (PipeWr 0, False)"
    by (simp add: st forked_def)
  have room: "Max (insert 0 (set [0, 1, 2])) + 1 < int (nofile s)"
    by (simp add: st forked_def)
  from sync_relocation [OF init live room] init show ?thesis
    by (auto simp: st)
qed

text \<open>
  C3, as stated, fails: with an empty request list the pipe is moved to descriptor 1,
  which was open on the standard output.
\<close>

theorem empty_request_overwrites_stdout:
  "(case then_do (child_setup calm (3, 4) [] forked) (child_shuffle []) of
      Inr t \<Rightarrow> fds forked 1 = Some (File 1, False) \<and> fds t 1 = Some (PipeWr 0, True)
    | Inl t \<Rightarrow> False)"
  by (simp add: child_defs sys_defs calm_def forked_def upt_conv_Cons)

text \<open>
  C3, amended: with an empty request list the pipe is moved to descriptor 1 and marked
  close-on-exec there; its original descriptor is closed (unless that was 1); every
  descriptor other than these two keeps its open file and its flag. Descriptor 1, when it
  was open, is overwritten.
\<close>

theorem empty_request_relocation:
  assumes init: "child_setup k sp [] p = Inr s" and live: "fds s (syncfd s) = Some d"
    and room: "1 < nofile s"
  shows "\<exists>t. child_shuffle [] s = Inr t \<and> syncfd t = 1 \<and> fds t 1 = Some (fst d, True) \<and>
             (syncfd s \<noteq> 1 \<longrightarrow> fds t (syncfd s) = None) \<and>
             (\<forall>fd. fd \<noteq> 1 \<and> fd \<noteq> syncfd s \<longrightarrow> fds t fd = fds s fd)"
proof -
  from room have "syncfd s \<noteq> Max (insert 0 (set [])) + 1 \<longrightarrow>
               Max (insert 0 (set [])) + 1 < int (nofile s)" by simp
  from sync_relocated [OF init live this] obtain t where
    "child_sync (child_highest [] s) = Inr t" "syncfd t = 1"
    "fds t = ((fds s)(syncfd s := None))(1 \<mapsto> (fst d, True))"
    by auto
  then show ?thesis by (auto simp: child_shuffle_def then_do_def)
qed

text \<open>
  C3 at the concrete child with no request.
\<close>

theorem empty_request_relocation_witness:
  "\<exists>s t. child_setup calm (3, 4) [] forked = Inr s \<and> child_shuffle [] s = Inr t \<and>
         syncfd t = 1 \<and> fds t 1 = Some (PipeWr 0, True) \<and> fds t 4 = None \<and>
         fds t 0 = fds s 0 \<and> fds t 2 = fds s 2"
proof -
  have "\<exists>s. child_setup calm (3, 4) [] forked = Inr s"
    by (simp add: child_defs sys_defs calm_def forked_def upt_conv_Cons)
  then obtain s where init: "child_setup calm (3, 4) [] forked = Inr s" ..
  note st = child_setup_Inr [OF init]
  have live: "fds s (syncfd s) = Some (PipeWr 0, False)"
    by (simp add: st forked_def)
  have room: "1 < nofile s"
    by (simp add: st forked_def)
  from empty_request_relocation [OF init live room] init show ?thesis
    by (auto simp: st)
qed

section \<open>The renumbering of the descriptors\<close>

lemma for_each_append:
  "for_each (xs @ ys) body s = then_do (for_each xs body s) (for_each ys body)"
  by (induction xs arbitrary: s) (simp_all add: then_do_def split: sum.splits)

lemma for_each_snoc_Inr:
  "for_each (xs @ [x]) body s = Inr t \<longleftrightarrow> (\<exists>u. for_each xs body s = Inr u \<and> body x u = Inr t)"
  by (auto simp: for_each_append then_do_def split: sum.splits)

lemma move_up_step:
  assumes inv: "up_inv h g M low n t" and n: "n < length h"
    and le: "\<forall>x\<in>set h. x \<le> M"
    and src: "\<forall>j<length h. \<exists>c. low (h ! j) = Some (g j, c)"
    and run: "move_up n t = Inr t'"
  shows "up_inv h g M low (Suc n) t'"
proof (cases "h ! n = int n")
  case True
  from inv n have tn: "fd_table t ! n = h ! n" by (simp add: up_inv_def)
  with True run have t': "t' = t" by (simp add: move_up_def)
  from le n True have "int n \<le> M" by (metis nth_mem)
  with inv True tn show ?thesis
    unfolding t' up_inv_def by (auto simp: less_Suc_eq)
next
  case False
  from inv n have tn: "fd_table t ! n = h ! n" by (simp add: up_inv_def)
  from le n have hn: "h ! n \<le> M" by simp
  from src n obtain c where "low (h ! n) = Some (g n, c)" by blast
  with inv hn have op: "fds t (h ! n) = Some (g n, c)" by (simp add: up_inv_def)
  from inv have fi: "M + 2 \<le> fd_index t" "int n < fd_index t"
    and len: "length (fd_table t) = length h" by (simp_all add: up_inv_def)
  from run False tn op fi hn
  have t': "t' = t\<lparr>fds := (fds t)(fd_index t \<mapsto> (g n, True)),
                   fd_table := (fd_table t)[n := fd_index t],
                   fd_index := fd_index t + 1\<rparr>"
    by (auto simp: move_up_def sys_dup2_def sys_fcntl_setfd_def split: if_splits)
  show ?thesis
    unfolding up_inv_def t'
  proof (intro conjI allI impI)
    fix j assume "j < Suc n" "h ! j \<noteq> int j"
    then consider "j = n" | "j < n" by linarith
    then show "fds (t\<lparr>fds := (fds t)(fd_index t \<mapsto> (g n, True)),
                   fd_table := (fd_table t)[n := fd_index t],
                   fd_index := fd_index t + 1\<rparr>) (fd_table (t\<lparr>fds := (fds t)(fd_index t \<mapsto> (g n, True)),
                   fd_table := (fd_table t)[n := fd_index t],
                   fd_index := fd_index t + 1\<rparr>) ! j) = Some (g j, True)"
    proof cases
      case 1
      with n len show ?thesis by simp
    next
      case 2
      with inv \<open>h ! j \<noteq> int j\<close> have "fd_table t ! j < fd_index t"
        "fds t (fd_table t ! j) = Some (g j, True)" by (simp_all add: up_inv_def)
      with 2 show ?thesis by simp
    qed
  qed (use inv n fi len False in \<open>auto simp: up_inv_def less_Suc_eq nth_list_update\<close>)
qed

lemma move_up_loop:
  assumes le: "\<forall>x\<in>set h. x \<le> M"
    and src: "\<forall>j<length h. \<exists>c. low (h ! j) = Some (g j, c)"
  shows "n \<le> length h \<Longrightarrow> up_inv h g M low 0 s \<Longrightarrow>
         for_each [0..<n] move_up s = Inr t \<Longrightarrow> up_inv h g M low n t"
proof (induction n arbitrary: t)
  case 0
  then show ?case by simp
next
  case (Suc n)
  from Suc.prems(3) obtain u where u: "for_each [0..<n] move_up s = Inr u"
    and st: "move_up n u = Inr t"
    by (auto simp: for_each_snoc_Inr)
  from Suc.IH [OF _ Suc.prems(2) u] Suc.prems(1) have "up_inv h g M low n u" by simp
  from move_up_step [OF this _ le src st] Suc.prems(1) show ?case by simp
qed

lemma place_step:
  assumes inv: "place_inv h g T n t" and n: "n < length h"
    and fixed: "\<forall>j<length h. h ! j = int j \<longrightarrow> T ! j = int j"
    and moved: "\<forall>j<length h. h ! j \<noteq> int j \<longrightarrow> int j < T ! j"
    and run: "place n t = Inr t'"
  shows "place_inv h g T (Suc n) t'"
proof (cases "h ! n = int n")
  case True
  with inv n obtain c where c: "fds t (int n) = Some (g n, c)"
    unfolding place_inv_def by blast
  from inv have T: "fd_table t = T" by (simp add: place_inv_def)
  from True fixed n have "T ! n = int n" by simp
  with run T c have t': "t' = t\<lparr>fds := (fds t)(int n \<mapsto> (g n, False))\<rparr>"
    by (simp add: place_def then_do_def sys_fcntl_setfd_def)
  show ?thesis
    unfolding place_inv_def t'
    using inv moved True
    by (auto simp: place_inv_def less_Suc_eq)
next
  case False
  from inv have T: "fd_table t = T" by (simp add: place_inv_def)
  from False moved n have lt: "int n < T ! n" by simp
  from inv n False have src: "fds t (T ! n) = Some (g n, True)"
    by (simp add: place_inv_def)
  from run T lt src have t': "t' = t\<lparr>fds := (fds t)(int n \<mapsto> (g n, False))\<rparr>"
    by (auto simp: place_def then_do_def sys_dup2_def sys_fcntl_setfd_def split: if_splits)
  show ?thesis
    unfolding place_inv_def t'
    using inv moved False
    by (auto simp: place_inv_def less_Suc_eq)
qed

lemma place_loop:
  assumes fixed: "\<forall>j<length h. h ! j = int j \<longrightarrow> T ! j = int j"
    and moved: "\<forall>j<length h. h ! j \<noteq> int j \<longrightarrow> int j < T ! j"
  shows "n \<le> length h \<Longrightarrow> place_inv h g T 0 s \<Longrightarrow>
         for_each [0..<n] place s = Inr t \<Longrightarrow> place_inv h g T n t"
proof (induction n arbitrary: t)
  case 0
  then show ?case by simp
next
  case (Suc n)
  from Suc.prems(3) obtain u where u: "for_each [0..<n] place s = Inr u"
    and st: "place n u = Inr t"
    by (auto simp: for_each_snoc_Inr)
  from Suc.IH [OF _ Suc.prems(2) u] Suc.prems(1) have "place_inv h g T n u" by simp
  from place_step [OF this _ fixed moved st] Suc.prems(1) show ?case by simp
qed

lemma cloexec_loop:
  "for_each xs mark_cloexec s = Inr s' \<Longrightarrow>
   fds s' fd = (if fd \<in> int ` set xs then map_option (\<lambda>d. (fst d, True)) (fds s fd)
                else fds s fd)"
proof (induction xs arbitrary: s)
  case Nil
  then show ?case by simp
next
  case (Cons i xs)
  from Cons.prems obtain u where u: "mark_cloexec i s = Inr u"
    and r: "for_each xs mark_cloexec u = Inr s'"
    by (auto split: sum.splits)
  from u have "fds u = (\<lambda>x. if x = int i then map_option (\<lambda>d. (fst d, True)) (fds s x) else fds s x)"
    by (auto simp: mark_cloexec_def sys_fcntl_setfd_def split: option.splits if_splits)
  with Cons.IH [OF r] show ?case by (auto simp: option.map_comp comp_def)
qed

lemma child_sync_Inr:
  assumes "child_sync s = Inr s'"
  shows "\<exists>d. fds s (syncfd s) = Some d \<and>
           s' = s\<lparr>fds := ((fds s)(syncfd s := None))(fd_index s + 1 \<mapsto> (fst d, True)),
                  syncfd := fd_index s + 1, fd_index := fd_index s + 2\<rparr>"
proof (cases "syncfd s = fd_index s + 1")
  case True
  with assms show ?thesis
    by (auto simp: child_sync_def Let_def then_do_def sys_fcntl_setfd_def
        split: option.splits if_splits)
next
  case False
  with assms show ?thesis
    by (auto simp: child_sync_def Let_def then_do_def sys_fcntl_setfd_def sys_dup2_def
        sys_close_def fun_upd_twist split: option.splits if_splits)
qed

lemma int_image_upt: "fd \<in> int ` set [a..<b] \<longleftrightarrow> int a \<le> fd \<and> fd < int b"
proof
  assume "fd \<in> int ` set [a..<b]"
  then show "int a \<le> fd \<and> fd < int b" by auto
next
  assume "int a \<le> fd \<and> fd < int b"
  then have "nat fd \<in> set [a..<b]" and "fd = int (nat fd)" by auto
  then show "fd \<in> int ` set [a..<b]" by (rule image_eqI [rotated])
qed

lemma cloexec_range:
  "for_each [a..<b] mark_cloexec s = Inr s' \<Longrightarrow>
   fds s' fd = (if int a \<le> fd \<and> fd < int b then map_option (\<lambda>d. (fst d, True)) (fds s fd)
                else fds s fd)"
  by (simp only: cloexec_loop [of "[a..<b]" s s' fd] int_image_upt)

text \<open>
  When the descriptor of the pipe is itself a source of the list, the renumbering does
  not complete: the pipe has left that descriptor, so its copy or its flag change fails.
\<close>

lemma move_up_closed_step:
  assumes inv: "closed_inv h M c n t" and n: "n < length h" and c: "c \<le> M"
    and run: "move_up n t = Inr t'"
  shows "closed_inv h M c (Suc n) t'"
proof (cases "h ! n = int n")
  case True
  from inv n have "fd_table t ! n = h ! n" by (simp add: closed_inv_def)
  with True run have "t' = t" "fd_table t ! n = int n" by (simp_all add: move_up_def)
  with inv True show ?thesis by (auto simp: closed_inv_def less_Suc_eq)
next
  case False
  from inv n have tn: "fd_table t ! n = h ! n" by (simp add: closed_inv_def)
  from inv have cl: "fds t c = None" and fi: "M + 2 \<le> fd_index t"
    and len: "length (fd_table t) = length h" by (simp_all add: closed_inv_def)
  from run False tn cl have hc: "h ! n \<noteq> c"
    by (auto simp: move_up_def sys_dup2_def)
  from run False tn obtain d where "fds t (h ! n) = Some d"
    and "t' = t\<lparr>fds := (fds t)(fd_index t \<mapsto> (fst d, True)),
                 fd_table := (fd_table t)[n := fd_index t],
                 fd_index := fd_index t + 1\<rparr>"
    by (auto simp: move_up_def sys_dup2_def sys_fcntl_setfd_def split: option.splits if_splits)
  with inv n c hc show ?thesis
    by (auto simp: closed_inv_def less_Suc_eq nth_list_update)
qed

lemma move_up_closed_loop:
  assumes c: "c \<le> M"
  shows "n \<le> length h \<Longrightarrow> closed_inv h M c 0 s \<Longrightarrow>
         for_each [0..<n] move_up s = Inr t \<Longrightarrow> closed_inv h M c n t"
proof (induction n arbitrary: t)
  case 0
  then show ?case by simp
next
  case (Suc n)
  from Suc.prems(3) obtain u where u: "for_each [0..<n] move_up s = Inr u"
    and st: "move_up n u = Inr t"
    by (auto simp: for_each_snoc_Inr)
  from Suc.IH [OF _ Suc.prems(2) u] Suc.prems(1) have "closed_inv h M c n u" by simp
  from move_up_closed_step [OF this _ c st] Suc.prems(1) show ?case by simp
qed

lemma place_closed_loop:
  "n \<le> j \<Longrightarrow> fds s (int j) = None \<Longrightarrow> for_each [0..<n] place s = Inr t \<Longrightarrow>
   fds t (int j) = None \<and> fd_table t = fd_table s"
proof (induction n arbitrary: t)
  case 0
  then show ?case by simp
next
  case (Suc n)
  from Suc.prems(3) obtain u where u: "for_each [0..<n] place s = Inr u"
    and st: "place n u = Inr t"
    by (auto simp: for_each_snoc_Inr)
  from Suc.IH [OF _ Suc.prems(2) u] Suc.prems(1)
  have a: "fds u (int j) = None" "fd_table u = fd_table s" by simp_all
  from Suc.prems(1) have "int n \<noteq> int j" by simp
  with st a show ?case
    by (auto simp: place_def then_do_def sys_dup2_def sys_fcntl_setfd_def
        split: option.splits if_splits)
qed

lemma place_closed_fails:
  assumes "fds s (int j) = None" and "fd_table s ! j = int j"
  shows "place j s \<noteq> Inr t"
  using assms by (simp add: place_def then_do_def sys_fcntl_setfd_def)

lemma shuffle_needs_sync_apart:
  assumes init: "child_setup k sp h p = Inr s" and run: "child_shuffle h s = Inr s1"
  shows "syncfd s \<notin> set h"
proof
  assume mem: "syncfd s \<in> set h"
  define M where "M = Max (insert 0 (set h))"
  define c where "c = syncfd s"
  note st = child_setup_Inr [OF init]
  from mem have cM: "c \<le> M" by (simp add: M_def c_def)
  from run obtain sA sB where sy: "child_sync (child_highest h s) = Inr sA"
    and up: "for_each [0..<length h] move_up sA = Inr sB"
    and pl: "for_each [0..<length h] place sB = Inr s1"
    by (auto simp: child_shuffle_def then_do_def split: sum.splits)
  have hi: "child_highest h s = s\<lparr>fd_index := M, fd_table := h\<rparr>"
    using child_highest_eq [of s h] st by (simp add: M_def)
  from child_sync_Inr [OF sy] cM have sA: "fds sA c = None" "fd_table sA = h"
    "fd_index sA = M + 2"
    by (auto simp: hi c_def)
  then have "closed_inv h M c 0 sA" by (simp add: closed_inv_def)
  from move_up_closed_loop [OF cM _ this up]
  have inv: "closed_inv h M c (length h) sB" by simp
  from mem obtain j where j: "j < length h" "h ! j = c"
    by (auto simp: in_set_conv_nth c_def)
  with inv have cj: "int j = c" "fd_table sB ! j = int j" "fds sB (int j) = None"
    by (auto simp: closed_inv_def)
  from j have "[0..<length h] = [0..<j] @ j # [Suc j..<length h]"
    using upt_add_eq_append [of 0 j "length h - j"] by (simp add: upt_conv_Cons)
  with pl obtain u where u: "for_each [0..<j] place sB = Inr u"
    and pj: "for_each (j # [Suc j..<length h]) place u = Inr s1"
    by (auto simp: for_each_append then_do_def split: sum.splits)
  from place_closed_loop [OF _ cj(3) u] cj(2)
  have "fds u (int j) = None" "fd_table u ! j = int j" by simp_all
  from place_closed_fails [OF this] pj show False
    by (auto split: sum.splits)
qed

text \<open>
  C1, as stated, fails: the sweep of lines 211-215 stops at the descriptor limit. In the
  concrete child with the limit 8 and the descriptor 40 open (left from before the limit
  was lowered), the request list 2, 0, 2 is served and lines 133-215 complete, but the
  descriptor 40, which is above the length of the list, stays open without close-on-exec.
\<close>

theorem descriptor_above_limit_stays_open:
  "(case then_do (child_setup calm (3, 4) [2, 0, 2]
                    (forked\<lparr>fds := (fds forked)(40 \<mapsto> (File 40, False))\<rparr>))
                 (child_descriptors calm plain [2, 0, 2]) of
      Inr s' \<Rightarrow> nofile s' = 8 \<and> fds s' 2 = Some (File 2, False) \<and>
                fds s' 3 = Some (PipeWr 0, True) \<and> fds s' 40 = Some (File 40, False)
    | Inl t \<Rightarrow> False)"
  by (simp add: child_defs sys_defs calm_def forked_def plain_def upt_conv_Cons)

text \<open>
  C1, amended: let \<open>s\<close> be the state of the child at line 133 and let lines 133-215
  complete, in \<open>s'\<close>. If every source descriptor of the request list is open in
  \<open>s\<close> (sources that are in place, sources that are positions of other requests and
  repeated sources included), then in \<open>s'\<close> every position \<open>i\<close> names the open
  file that the source \<open>h ! i\<close> named in \<open>s\<close>, with close-on-exec cleared, and
  every open descriptor from the length of the list up to the descriptor limit, the limit
  included, is marked close-on-exec.
\<close>

theorem child_descriptors_correct:
  assumes init: "child_setup k sp h p = Inr s"
    and run: "child_descriptors k attrs h s = Inr s'"
    and src: "\<forall>i<length h. fds s (h ! i) \<noteq> None"
  shows "(\<forall>i<length h. map_option fst (fds s' (int i)) = map_option fst (fds s (h ! i)) \<and>
                        map_option snd (fds s' (int i)) = Some False) \<and>
         (\<forall>fd d. int (length h) \<le> fd \<and> fd \<le> int (nofile s) \<and> fds s' fd = Some d \<longrightarrow> snd d)"
proof -
  define M where "M = Max (insert 0 (set h))"
  define g where "g = (\<lambda>j. fst (the (fds s (h ! j))))"
  note st = child_setup_Inr [OF init]
  have M0: "0 \<le> M" and Mh: "\<forall>x\<in>set h. x \<le> M"
    by (simp_all add: M_def)
  from run obtain s1 s2 where sh: "child_shuffle h s = Inr s1"
    and se: "child_session k attrs s1 = Inr s2"
    and cl: "child_cloexec k (length h) s2 = Inr s'"
    by (auto simp: child_descriptors_def then_do_def split: sum.splits)
  from shuffle_needs_sync_apart [OF init sh] have sync: "syncfd s \<notin> set h" .
  from sh obtain sA sB where sy: "child_sync (child_highest h s) = Inr sA"
    and up: "for_each [0..<length h] move_up sA = Inr sB"
    and pl: "for_each [0..<length h] place sB = Inr s1"
    by (auto simp: child_shuffle_def then_do_def split: sum.splits)
  have hi: "child_highest h s = s\<lparr>fd_index := M, fd_table := h\<rparr>"
    using child_highest_eq [of s h] st by (simp add: M_def)
  from child_sync_Inr [OF sy] obtain d where
    "fds (child_highest h s) (syncfd (child_highest h s)) = Some d \<and>
     sA = (child_highest h s)
            \<lparr>fds := ((fds (child_highest h s))(syncfd (child_highest h s) := None))
                      (fd_index (child_highest h s) + 1 \<mapsto> (fst d, True)),
             syncfd := fd_index (child_highest h s) + 1,
             fd_index := fd_index (child_highest h s) + 2\<rparr>" ..
  then have sA: "fds sA = ((fds s)(snd sp := None))(M + 1 \<mapsto> (fst d, True))"
    "fd_table sA = h" "fd_index sA = M + 2"
    by (simp_all add: hi st)
  have low: "\<forall>j<length h. \<exists>c. fds sA (h ! j) = Some (g j, c)"
  proof (intro allI impI)
    fix j assume j: "j < length h"
    then have "h ! j \<in> set h" by simp
    with Mh sync st have "h ! j \<noteq> M + 1" "h ! j \<noteq> snd sp" by auto
    moreover from src j obtain e where "fds s (h ! j) = Some e" by blast
    ultimately show "\<exists>c. fds sA (h ! j) = Some (g j, c)"
      by (cases e) (simp add: sA g_def)
  qed
  have "up_inv h g M (fds sA) 0 sA"
    using M0 by (simp add: up_inv_def sA)
  from move_up_loop [OF Mh low _ this up]
  have upN: "up_inv h g M (fds sA) (length h) sB" by simp
  then have fixed: "\<forall>j<length h. h ! j = int j \<longrightarrow> fd_table sB ! j = int j"
    and moved: "\<forall>j<length h. h ! j \<noteq> int j \<longrightarrow> int j < fd_table sB ! j"
    by (simp_all add: up_inv_def)
  have "place_inv h g (fd_table sB) 0 sB"
    unfolding place_inv_def
  proof (intro conjI allI impI)
    fix j assume "j < length h" "0 \<le> j \<and> h ! j = int j"
    then have j: "j < length h" "h ! j = int j" by simp_all
    then have "int j \<le> M + 1" using Mh by (metis nth_mem add_increasing2 zero_le_one)
    with upN have "fds sB (int j) = fds sA (int j)" by (simp add: up_inv_def)
    with low j show "\<exists>c. fds sB (int j) = Some (g j, c)" by metis
  qed (use upN in \<open>simp_all add: up_inv_def\<close>)
  from place_loop [OF fixed moved _ this pl]
  have plN: "place_inv h g (fd_table sB) (length h) s1" by simp
  from child_session_keeps [of k attrs s1 s2] se have f2: "fds s2 = fds s1" by simp
  have kp: "keeps s s2"
    using child_shuffle_keeps [of h s s1] sh child_session_keeps [of k attrs s1 s2] se
    by (blast intro: keeps_trans)
  from kp have nf: "nofile s2 = nofile p"
    using st by (simp add: keeps_def)
  from cl have sweep: "for_each [length h..<Suc (nofile p)] mark_cloexec s2 = Inr s'"
    by (simp add: child_cloexec_def sys_getrlimit_nofile_def nf split: if_splits)
  note fin = cloexec_range [OF sweep]
  show ?thesis
  proof (intro conjI allI impI)
    fix i assume i: "i < length h"
    with plN have a: "fds s1 (int i) = Some (g i, False)" by (simp add: place_inv_def)
    with fin [of "int i"] i f2 have b: "fds s' (int i) = Some (g i, False)" by simp
    from src i obtain e where "fds s (h ! i) = Some e" by blast
    with b show "map_option fst (fds s' (int i)) = map_option fst (fds s (h ! i))"
      by (simp add: g_def)
    from b show "map_option snd (fds s' (int i)) = Some False" by simp
  next
    fix fd d assume a: "int (length h) \<le> fd \<and> fd \<le> int (nofile s) \<and> fds s' fd = Some d"
    with st have "fd < int (Suc (nofile p))" by simp
    with fin [of fd] a have "Some d = map_option (\<lambda>d. (fst d, True)) (fds s2 fd)"
      by simp
    then show "snd d" by (cases "fds s2 fd") auto
  qed
qed

text \<open>
  C1 at the concrete child with the request list 2, 0, 2: a repeated source, a source
  that is in place, and sources that are positions of other requests.
\<close>

theorem child_descriptors_correct_witness:
  "\<exists>s s'. child_setup calm (3, 4) [2, 0, 2] forked = Inr s \<and>
          child_descriptors calm plain [2, 0, 2] s = Inr s' \<and>
          map_option fst (fds s' 0) = Some (File 2) \<and>
          map_option fst (fds s' 1) = Some (File 0) \<and>
          map_option fst (fds s' 2) = Some (File 2) \<and>
          map_option fst (fds s' 3) = Some (PipeWr 0) \<and> snd (the (fds s' 3))"
proof -
  have "\<exists>s s'. child_setup calm (3, 4) [2, 0, 2] forked = Inr s \<and>
          child_descriptors calm plain [2, 0, 2] s = Inr s' \<and>
          fds s' 3 = Some (PipeWr 0, True)"
    by (simp add: child_defs sys_defs calm_def forked_def plain_def upt_conv_Cons)
  then obtain s s' where init: "child_setup calm (3, 4) [2, 0, 2] forked = Inr s"
    and run: "child_descriptors calm plain [2, 0, 2] s = Inr s'"
    and o3: "fds s' 3 = Some (PipeWr 0, True)" by blast
  note st = child_setup_Inr [OF init]
  have src: "\<forall>i<length [2, 0, 2 :: int]. fds s ([2, 0, 2] ! i) \<noteq> None"
    by (auto simp: st forked_def All_less_Suc)
  from child_descriptors_correct [OF init run src] init run o3
  show ?thesis
    by (auto simp: st forked_def All_less_Suc)
qed

text \<open>
  Each round of the two loops succeeds while there is room below the limit.
\<close>

lemma move_up_progress:
  assumes inv: "up_inv h g M low n t" and n: "n < length h"
    and le: "\<forall>x\<in>set h. x \<le> M"
    and src: "\<forall>j<length h. \<exists>c. low (h ! j) = Some (g j, c)"
    and room: "fd_index t < int (nofile t)"
  shows "\<exists>t'. move_up n t = Inr t' \<and> fd_index t' \<le> fd_index t + 1 \<and> nofile t' = nofile t"
proof (cases "h ! n = int n")
  case True
  from inv n have "fd_table t ! n = h ! n" by (simp add: up_inv_def)
  with True show ?thesis by (simp add: move_up_def)
next
  case False
  from inv n have tn: "fd_table t ! n = h ! n" by (simp add: up_inv_def)
  from le n have hn: "h ! n \<le> M" by simp
  from src n obtain c where "low (h ! n) = Some (g n, c)" by blast
  with inv hn have op: "fds t (h ! n) = Some (g n, c)" by (simp add: up_inv_def)
  from inv have fi: "M + 2 \<le> fd_index t" "int n < fd_index t" by (simp_all add: up_inv_def)
  with False tn op hn room show ?thesis
    by (simp add: move_up_def sys_dup2_def sys_fcntl_setfd_def)
qed

lemma move_up_loop_progress:
  assumes le: "\<forall>x\<in>set h. x \<le> M"
    and src: "\<forall>j<length h. \<exists>c. low (h ! j) = Some (g j, c)"
    and inv: "up_inv h g M low 0 s"
  shows "n \<le> length h \<Longrightarrow> fd_index s + int n \<le> int (nofile s) \<Longrightarrow>
         \<exists>t. for_each [0..<n] move_up s = Inr t \<and> fd_index t \<le> fd_index s + int n \<and>
             nofile t = nofile s"
proof (induction n)
  case 0
  then show ?case by simp
next
  case (Suc n)
  then obtain u where u: "for_each [0..<n] move_up s = Inr u"
    and b: "fd_index u \<le> fd_index s + int n" "nofile u = nofile s" by auto
  from move_up_loop [OF le src _ inv u] Suc.prems have "up_inv h g M low n u" by simp
  from move_up_progress [OF this _ le src] Suc.prems b
  obtain t where "move_up n u = Inr t" "fd_index t \<le> fd_index u + 1" "nofile t = nofile u"
    by auto
  with u b show ?case by (auto simp: for_each_snoc_Inr)
qed

lemma place_progress:
  assumes inv: "place_inv h g T n t" and n: "n < length h"
    and fixed: "\<forall>j<length h. h ! j = int j \<longrightarrow> T ! j = int j"
    and moved: "\<forall>j<length h. h ! j \<noteq> int j \<longrightarrow> int j < T ! j"
    and room: "int n < int (nofile t)"
  shows "\<exists>t'. place n t = Inr t' \<and> nofile t' = nofile t"
proof (cases "h ! n = int n")
  case True
  with inv n obtain c where c: "fds t (int n) = Some (g n, c)"
    unfolding place_inv_def by blast
  from inv have T: "fd_table t = T" by (simp add: place_inv_def)
  from True fixed n have "T ! n = int n" by simp
  with T c show ?thesis
    by (simp add: place_def then_do_def sys_fcntl_setfd_def)
next
  case False
  from inv have T: "fd_table t = T" by (simp add: place_inv_def)
  from False moved n have lt: "int n < T ! n" by simp
  from inv n False have "fds t (T ! n) = Some (g n, True)"
    by (simp add: place_inv_def)
  with T lt room show ?thesis
    by (simp add: place_def then_do_def sys_dup2_def sys_fcntl_setfd_def)
qed

lemma place_loop_progress:
  assumes fixed: "\<forall>j<length h. h ! j = int j \<longrightarrow> T ! j = int j"
    and moved: "\<forall>j<length h. h ! j \<noteq> int j \<longrightarrow> int j < T ! j"
    and inv: "place_inv h g T 0 s"
  shows "n \<le> length h \<Longrightarrow> n \<le> nofile s \<Longrightarrow>
         \<exists>t. for_each [0..<n] place s = Inr t \<and> nofile t = nofile s"
proof (induction n)
  case 0
  then show ?case by simp
next
  case (Suc n)
  then obtain u where u: "for_each [0..<n] place s = Inr u" and b: "nofile u = nofile s"
    by auto
  from place_loop [OF fixed moved _ inv u] Suc.prems have "place_inv h g T n u" by simp
  from place_progress [OF this _ fixed moved] Suc.prems b
  obtain t where "place n u = Inr t" "nofile t = nofile u" by auto
  with u b show ?case by (auto simp: for_each_snoc_Inr)
qed

lemma mark_cloexec_loop_total: "\<exists>s'. for_each xs mark_cloexec s = Inr s'"
proof (induction xs arbitrary: s)
  case Nil
  show ?case by simp
next
  case (Cons i xs)
  have "\<exists>u. mark_cloexec i s = Inr u"
    by (simp add: mark_cloexec_def sys_fcntl_setfd_def split: option.splits)
  then obtain u where "mark_cloexec i s = Inr u" ..
  with Cons [of u] show ?case by simp
qed

text \<open>
  Lines 133-215 do complete when the descriptor of the pipe is open and is not a
  source, the descriptors up to the highest source, plus two, plus the length of the
  list fit below the limit, and the calls for the session and the limit succeed.
\<close>

lemma child_descriptors_completes:
  assumes init: "child_setup k sp h p = Inr s"
    and src: "\<forall>i<length h. fds s (h ! i) \<noteq> None"
    and sync: "syncfd s \<notin> set h" and live: "fds s (syncfd s) \<noteq> None"
    and room: "Max (insert 0 (set h)) + 2 + int (length h) \<le> int (nofile s)"
    and calls: "setsid attrs = 0 \<or> setsid_err k = 0" "setpgid attrs = 0 \<or> setpgid_err k = 0"
      "setctty attrs = 0 \<or> ioctl_err k = 0" "getrlimit_err k = 0"
  shows "\<exists>s'. child_descriptors k attrs h s = Inr s'"
proof -
  define M where "M = Max (insert 0 (set h))"
  define g where "g = (\<lambda>j. fst (the (fds s (h ! j))))"
  note st = child_setup_Inr [OF init]
  have M0: "0 \<le> M" and Mh: "\<forall>x\<in>set h. x \<le> M"
    by (simp_all add: M_def)
  from live obtain d where d: "fds s (syncfd s) = Some d" by blast
  from room M0 have "syncfd s \<noteq> Max (insert 0 (set h)) + 1 \<longrightarrow>
               Max (insert 0 (set h)) + 1 < int (nofile s)" by (simp add: M_def)
  from sync_relocated [OF init d this] obtain sA where
    sy: "child_sync (child_highest h s) = Inr sA"
    and fA: "fds sA = ((fds s)(syncfd s := None))(M + 1 \<mapsto> (fst d, True))"
    by (auto simp: M_def)
  have hi: "child_highest h s = s\<lparr>fd_index := M, fd_table := h\<rparr>"
    using child_highest_eq [of s h] st by (simp add: M_def)
  from child_sync_Inr [OF sy] have sA: "fd_table sA = h" "fd_index sA = M + 2"
    "nofile sA = nofile s"
    by (auto simp: hi)
  have low: "\<forall>j<length h. \<exists>c. fds sA (h ! j) = Some (g j, c)"
  proof (intro allI impI)
    fix j assume j: "j < length h"
    then have "h ! j \<in> set h" by simp
    with Mh sync have "h ! j \<noteq> M + 1" "h ! j \<noteq> syncfd s" by auto
    moreover from src j obtain e where "fds s (h ! j) = Some e" by blast
    ultimately show "\<exists>c. fds sA (h ! j) = Some (g j, c)"
      by (cases e) (simp add: fA g_def)
  qed
  have inv0: "up_inv h g M (fds sA) 0 sA"
    using M0 by (simp add: up_inv_def sA)
  from move_up_loop_progress [OF Mh low inv0, of "length h"] room sA
  obtain sB where up: "for_each [0..<length h] move_up sA = Inr sB"
    and nB: "nofile sB = nofile s" by (auto simp: M_def)
  from move_up_loop [OF Mh low _ inv0 up]
  have upN: "up_inv h g M (fds sA) (length h) sB" by simp
  then have fixed: "\<forall>j<length h. h ! j = int j \<longrightarrow> fd_table sB ! j = int j"
    and moved: "\<forall>j<length h. h ! j \<noteq> int j \<longrightarrow> int j < fd_table sB ! j"
    by (simp_all add: up_inv_def)
  have inv1: "place_inv h g (fd_table sB) 0 sB"
    unfolding place_inv_def
  proof (intro conjI allI impI)
    fix j assume "j < length h" "0 \<le> j \<and> h ! j = int j"
    then have j: "j < length h" "h ! j = int j" by simp_all
    then have "int j \<le> M + 1" using Mh by (metis nth_mem add_increasing2 zero_le_one)
    with upN have "fds sB (int j) = fds sA (int j)" by (simp add: up_inv_def)
    with low j show "\<exists>c. fds sB (int j) = Some (g j, c)" by metis
  qed (use upN in \<open>simp_all add: up_inv_def\<close>)
  from room have "M + 2 + int (length h) \<le> int (nofile s)" by (simp add: M_def)
  with M0 have "length h \<le> nofile s" by linarith
  with place_loop_progress [OF fixed moved inv1, of "length h"] nB
  obtain s1 where pl: "for_each [0..<length h] place sB = Inr s1" by auto
  from sy up pl have sh: "child_shuffle h s = Inr s1"
    by (simp add: child_shuffle_def then_do_def)
  from calls(1-3) have "\<exists>s2. child_session k attrs s1 = Inr s2"
    by (auto simp: child_session_def then_do_def sys_call_def)
  then obtain s2 where se: "child_session k attrs s1 = Inr s2" ..
  from mark_cloexec_loop_total [of "[length h..<Suc (nofile s2)]" s2] calls(4)
  have "\<exists>s'. child_cloexec k (length h) s2 = Inr s'"
    by (simp add: child_cloexec_def sys_getrlimit_nofile_def)
  with sh se show ?thesis
    by (simp add: child_descriptors_def then_do_def)
qed

text \<open>
  The placement of lines 176-187 can land on the descriptor of the pipe: with the
  request list 0, 1, 0 the pipe is moved to 2, and position 2 is then placed on it. A
  later failure (here of \<^verbatim>\<open>chdir\<close>) is written to the file of position 2, not to the
  pipe.
\<close>

lemma sync_descriptor_overwritten_by_placement:
  "(case child_handler (calm\<lparr>chdir_err := 2\<rparr>) (3, 4) ''/bin/true'' [] [] [0, 1, 0] (Some ''/nowhere'')
          {} plain forked of
      Some (Exited status s') \<Rightarrow> status = 127 \<and> syncfd s' = 2 \<and> written s' = [(File 0, 2, 4)]
    | Some (Execd executable args environment s') \<Rightarrow> False
    | None \<Rightarrow> False)"
  by (simp add: child_defs sys_defs calm_def forked_def plain_def upt_conv_Cons
      write_retry.simps)

section \<open>Where the error number of a failing step goes\<close>


















end
